theory Spec2Isabelle
  imports Complex_Main "HOL-Library.Sublist"
begin

section \<open>Reward functions of the GRPO example\<close>

text \<open>
  The GRPO notebook defines four reward functions over a batch of completions:
  \<open>match_format_exactly\<close>, \<open>match_format_approximately\<close>, \<open>check_answer\<close> and
  \<open>check_numbers\<close>. They are built from two compiled regular expressions
  (\<open>match_format\<close>, \<open>match_numbers\<close>), \<open>str.count\<close>, \<open>str.strip\<close> and \<open>float\<close>.

  Strings are \<open>string\<close>: one \<open>char\<close> per code point, which covers the code points
  0 to 255. Scores are rationals: every score the functions produce (0, 3.0, 1.5, 0.5,
  0.25, -0.5, -1.0 and the sums of four halves) is a dyadic number that binary
  floating point holds exactly, and Python compares the integer 0 and the float 0.0 equal.
\<close>

subsection \<open>Markers\<close>

definition reasoning_start :: string where
  "reasoning_start = ''<start_working_out>''"

definition reasoning_end :: string where
  "reasoning_end = ''<end_working_out>''"

definition solution_start :: string where
  "solution_start = ''<SOLUTION>''"

definition solution_end :: string where
  "solution_end = ''</SOLUTION>''"

subsection \<open>Character classes and string methods\<close>

text \<open>
  \<open>\s\<close> in a str pattern and \<open>str.strip()\<close> use the same whitespace test; below 256 it
  holds of the code points 9 to 13, 28 to 32, 133 and 160. \<open>\d\<close> is a decimal digit,
  below 256 the characters 0 to 9.
\<close>

definition is_space :: "char \<Rightarrow> bool" where
  "is_space c = ((of_char c :: nat) \<in> {9, 10, 11, 12, 13, 28, 29, 30, 31, 32, 133, 160})"

definition is_digit_or_dot :: "char \<Rightarrow> bool" where
  "is_digit_or_dot c = ((48 \<le> (of_char c :: nat) \<and> (of_char c :: nat) \<le> 57) \<or> c = CHR ''.'')"

definition newline :: char where
  "newline = CHR 0x0A"

definition py_strip :: "string \<Rightarrow> string" where
  "py_strip s = rev (dropWhile is_space (rev (dropWhile is_space s)))"

text \<open>\<open>s.count(sub)\<close>: occurrences found scanning from the left, each search resuming
  after the previous occurrence (for the empty \<open>sub\<close>, one per position).\<close>

function py_count :: "string \<Rightarrow> string \<Rightarrow> nat" where
  "py_count sub [] = (if sub = [] then 1 else 0)"
| "py_count sub (c # cs) =
     (if prefix sub (c # cs) then 1 + py_count sub (drop (length sub - 1) cs)
      else py_count sub cs)"
  by pat_completeness auto
termination
  by (relation "measure (\<lambda>(sub, s). length s)") auto

text \<open>\<open>sub in s\<close> and \<open>s.split(sub)[1]\<close> for a non-empty separator.\<close>

fun split_first :: "string \<Rightarrow> string \<Rightarrow> string \<Rightarrow> (string \<times> string) option" where
  "split_first sep head [] = (if sep = [] then Some (head, []) else None)"
| "split_first sep head (c # cs) =
     (if prefix sep (c # cs) then Some (head, drop (length sep) (c # cs))
      else split_first sep (head @ [c]) cs)"

definition py_contains :: "string \<Rightarrow> string \<Rightarrow> bool" where
  "py_contains sub s = (split_first sub [] s \<noteq> None)"

definition py_split_item1 :: "string \<Rightarrow> string \<Rightarrow> string option" where
  "py_split_item1 sep s =
     (case split_first sep [] s of
        None \<Rightarrow> None
      | Some (_, after) \<Rightarrow>
          (case split_first sep [] after of
             None \<Rightarrow> Some after
           | Some (item, _) \<Rightarrow> Some item))"

definition extract_hash_answer :: "string \<Rightarrow> string option" where
  "extract_hash_answer text =
     (if \<not> py_contains ''####'' text then None
      else map_option py_strip (py_split_item1 ''####'' text))"

subsection \<open>The backtracking matcher\<close>

text \<open>
  The pieces of the two patterns, each taking the matcher of the rest of the pattern as a
  continuation \<open>k\<close> and returning the first success in the order the backtracking engine
  tries the alternatives: a lazy quantifier tries the shorter repetition first, a greedy
  one the longer. With \<open>DOTALL\<close> the dot matches every character.
\<close>

fun literal :: "string \<Rightarrow> (string \<Rightarrow> 'a option) \<Rightarrow> string \<Rightarrow> 'a option" where
  "literal [] k s = k s"
| "literal (p # ps) k [] = None"
| "literal (p # ps) k (c # cs) = (if p = c then literal ps k cs else None)"

text \<open>\<open>.*?\<close>\<close>

fun lazy_any :: "(string \<Rightarrow> 'a option) \<Rightarrow> string \<Rightarrow> 'a option" where
  "lazy_any k [] = k []"
| "lazy_any k (c # cs) = (case k (c # cs) of Some r \<Rightarrow> Some r | None \<Rightarrow> lazy_any k cs)"

text \<open>\<open>.+?\<close>\<close>

definition lazy_any1 :: "(string \<Rightarrow> 'a option) \<Rightarrow> string \<Rightarrow> 'a option" where
  "lazy_any1 k s = (case s of [] \<Rightarrow> None | c # cs \<Rightarrow> lazy_any k cs)"

text \<open>\<open>(.+?)\<close>: the continuation also receives the captured text.\<close>

fun lazy_group :: "(string \<Rightarrow> string \<Rightarrow> 'a option) \<Rightarrow> string \<Rightarrow> string \<Rightarrow> 'a option" where
  "lazy_group k g [] = k g []"
| "lazy_group k g (c # cs) =
     (case k g (c # cs) of Some r \<Rightarrow> Some r | None \<Rightarrow> lazy_group k (g @ [c]) cs)"

definition lazy_group1 :: "(string \<Rightarrow> string \<Rightarrow> 'a option) \<Rightarrow> string \<Rightarrow> 'a option" where
  "lazy_group1 k s = (case s of [] \<Rightarrow> None | c # cs \<Rightarrow> lazy_group k [c] cs)"

text \<open>\<open>[\s]{0,}\<close>\<close>

fun greedy_space :: "(string \<Rightarrow> 'a option) \<Rightarrow> string \<Rightarrow> 'a option" where
  "greedy_space k [] = k []"
| "greedy_space k (c # cs) =
     (if is_space c
      then (case greedy_space k cs of Some r \<Rightarrow> Some r | None \<Rightarrow> k (c # cs))
      else k (c # cs))"

text \<open>\<open>$\<close> under \<open>MULTILINE\<close>: at the end of the string or before a newline.\<close>

definition end_of_line :: "string \<Rightarrow> bool" where
  "end_of_line s = (case s of [] \<Rightarrow> True | c # _ \<Rightarrow> c = newline)"

text \<open>
  \<open>match_format\<close> is
  \<^verbatim>\<open>^[\s]{0,}<start_working_out>.+?<end_working_out>.*?<SOLUTION>(.+?)</SOLUTION>[\s]{0,}$\<close>
  compiled with \<open>MULTILINE | DOTALL\<close>. \<open>match_format_here\<close> is the pattern after \<open>^\<close>,
  returning group 1.
\<close>

definition match_format_here :: "string \<Rightarrow> string option" where
  "match_format_here =
     greedy_space (literal reasoning_start (lazy_any1 (literal reasoning_end
       (lazy_any (literal solution_start (lazy_group1 (\<lambda>g. literal solution_end
         (greedy_space (\<lambda>rest. if end_of_line rest then Some g else None)))))))))"

text \<open>\<open>search\<close> tries the start positions from the left; \<open>^\<close> under \<open>MULTILINE\<close> holds
  at the start of the string and after a newline (\<open>bol\<close>).\<close>

fun match_format_scan :: "bool \<Rightarrow> string \<Rightarrow> string option" where
  "match_format_scan bol [] = (if bol then match_format_here [] else None)"
| "match_format_scan bol (c # cs) =
     (case (if bol then match_format_here (c # cs) else None) of
        Some g \<Rightarrow> Some g
      | None \<Rightarrow> match_format_scan (c = newline) cs)"

text \<open>\<open>guess.group(1) if (guess := match_format.search(r)) is not None else None\<close>\<close>

definition match_format_search :: "string \<Rightarrow> string option" where
  "match_format_search r = match_format_scan True r"

text \<open>\<open>match_numbers\<close> is \<^verbatim>\<open><SOLUTION>.*?([\d\.]{1,})\<close>, same flags.\<close>

definition number_group :: "string \<Rightarrow> string option" where
  "number_group s =
     (let tok = takeWhile is_digit_or_dot s in if tok = [] then None else Some tok)"

definition match_numbers_here :: "string \<Rightarrow> string option" where
  "match_numbers_here = literal solution_start (lazy_any number_group)"

fun match_numbers_search :: "string \<Rightarrow> string option" where
  "match_numbers_search [] = match_numbers_here []"
| "match_numbers_search (c # cs) =
     (case match_numbers_here (c # cs) of
        Some g \<Rightarrow> Some g
      | None \<Rightarrow> match_numbers_search cs)"

subsection \<open>Exceptions and floating point\<close>

datatype error = KeyError | IndexError | AttributeError | ValueError | ZeroDivisionError

text \<open>
  \<open>float\<close>, float division, the float comparisons and the float literals belong to
  Python, not to the notebook. They are a parameter of the model: \<open>float_of_str\<close> is
  \<open>None\<close> where \<open>float(s)\<close> raises ValueError, \<open>float_is_zero\<close> tells the divisors on
  which \<open>/\<close> raises ZeroDivisionError, \<open>float_lit q\<close> is the float a decimal literal
  of value \<open>q\<close> denotes.
\<close>

record 'f float_ops =
  float_of_str :: "string \<Rightarrow> 'f option"
  float_is_zero :: "'f \<Rightarrow> bool"
  float_div :: "'f \<Rightarrow> 'f \<Rightarrow> 'f"
  float_ge :: "'f \<Rightarrow> 'f \<Rightarrow> bool"
  float_le :: "'f \<Rightarrow> 'f \<Rightarrow> bool"
  float_eq :: "'f \<Rightarrow> 'f \<Rightarrow> bool"
  float_lit :: "rat \<Rightarrow> 'f"

definition py_float :: "'f float_ops \<Rightarrow> string \<Rightarrow> error + 'f" where
  "py_float F s = (case float_of_str F s of None \<Rightarrow> Inl ValueError | Some x \<Rightarrow> Inr x)"

definition py_truediv :: "'f float_ops \<Rightarrow> 'f \<Rightarrow> 'f \<Rightarrow> error + 'f" where
  "py_truediv F x y = (if float_is_zero F y then Inl ZeroDivisionError else Inr (float_div F x y))"

type_synonym kwargs = "string \<rightharpoonup> string list"

subsection \<open>match_format_exactly\<close>

fun match_format_exactly_loop :: "string list \<Rightarrow> rat list \<Rightarrow> rat list" where
  "match_format_exactly_loop [] scores = scores"
| "match_format_exactly_loop (completion # rest) scores =
     (let score = 0;
          response = completion;
          score = (if match_format_search response \<noteq> None then score + 3 else score)
      in match_format_exactly_loop rest (scores @ [score]))"

definition match_format_exactly :: "'p \<Rightarrow> string list \<Rightarrow> kwargs \<Rightarrow> rat list" where
  "match_format_exactly prompts completions kargs = match_format_exactly_loop completions []"

subsection \<open>match_format_approximately\<close>

fun match_format_approximately_loop :: "string list \<Rightarrow> rat list \<Rightarrow> rat list" where
  "match_format_approximately_loop [] scores = scores"
| "match_format_approximately_loop (completion # rest) scores =
     (let score = 0;
          response = completion;
          score = score + (if py_count reasoning_start response = 1 then 1/2 else - (1/2));
          score = score + (if py_count reasoning_end response = 1 then 1/2 else - (1/2));
          score = score + (if py_count solution_start response = 1 then 1/2 else - (1/2));
          score = score + (if py_count solution_end response = 1 then 1/2 else - (1/2))
      in match_format_approximately_loop rest (scores @ [score]))"

definition match_format_approximately :: "'p \<Rightarrow> string list \<Rightarrow> kwargs \<Rightarrow> rat list" where
  "match_format_approximately prompts completions kargs =
     match_format_approximately_loop completions []"

subsection \<open>check_answer\<close>

text \<open>The body of the \<open>try\<close>: the score it leaves, or the exception it raises.\<close>

definition ratio_score :: "'f float_ops \<Rightarrow> string \<Rightarrow> string \<Rightarrow> rat \<Rightarrow> error + rat" where
  "ratio_score F guess true_answer score =
     (case py_float F guess of
        Inl e \<Rightarrow> Inl e
      | Inr x \<Rightarrow>
     (case py_float F true_answer of
        Inl e \<Rightarrow> Inl e
      | Inr y \<Rightarrow>
     (case py_truediv F x y of
        Inl e \<Rightarrow> Inl e
      | Inr ratio \<Rightarrow>
          if float_ge F ratio (float_lit F (9/10)) \<and> float_le F ratio (float_lit F (11/10))
          then Inr (score + 1/2)
          else if float_ge F ratio (float_lit F (8/10)) \<and> float_le F ratio (float_lit F (12/10))
          then Inr (score + 1/4)
          else Inr (score - 1))))"

text \<open>One pass of the loop body: the score appended, or the exception that leaves the
  function. \<open>true_answer.strip()\<close> on \<open>None\<close> raises AttributeError outside the \<open>try\<close>.\<close>

definition check_answer_score :: "'f float_ops \<Rightarrow> string option \<Rightarrow> string option \<Rightarrow> error + rat" where
  "check_answer_score F guess true_answer =
     (let score = 0 in
      case guess of
        None \<Rightarrow> Inr 0
      | Some g \<Rightarrow>
          if Some g = true_answer then Inr (score + 3)
          else (case true_answer of
                  None \<Rightarrow> Inl AttributeError
                | Some t \<Rightarrow>
                    if py_strip g = py_strip t then Inr (score + 3/2)
                    else (case ratio_score F g t score of
                            Inl _ \<Rightarrow> Inr (score - 1/2)
                          | Inr s \<Rightarrow> Inr s)))"

fun check_answer_loop ::
  "'f float_ops \<Rightarrow> (string option \<times> string option) list \<Rightarrow> rat list \<Rightarrow> error + rat list" where
  "check_answer_loop F [] scores = Inr scores"
| "check_answer_loop F ((guess, true_answer) # rest) scores =
     (case check_answer_score F guess true_answer of
        Inl e \<Rightarrow> Inl e
      | Inr score \<Rightarrow> check_answer_loop F rest (scores @ [score]))"

definition check_answer ::
  "'f float_ops \<Rightarrow> 'p \<Rightarrow> string list \<Rightarrow> string option list \<Rightarrow> kwargs \<Rightarrow> error + rat list" where
  "check_answer F prompts completions answer kargs =
     (let responses = completions;
          extracted_responses = map match_format_search responses
      in check_answer_loop F (zip extracted_responses answer) [])"

subsection \<open>check_numbers\<close>

text \<open>The body of the \<open>try\<close> in \<open>check_numbers\<close>; every exception is caught.\<close>

definition numbers_equal_score :: "'f float_ops \<Rightarrow> string \<Rightarrow> string option \<Rightarrow> error + rat" where
  "numbers_equal_score F guess true_answer =
     (case true_answer of
        None \<Rightarrow> Inl AttributeError
      | Some t \<Rightarrow>
     (case py_float F (py_strip t) of
        Inl e \<Rightarrow> Inl e
      | Inr true_answer' \<Rightarrow>
     (case py_float F (py_strip guess) of
        Inl e \<Rightarrow> Inl e
      | Inr guess' \<Rightarrow> Inr (if float_eq F guess' true_answer' then 3/2 else 0))))"

definition check_numbers_score :: "'f float_ops \<Rightarrow> string option \<Rightarrow> string option \<Rightarrow> rat" where
  "check_numbers_score F guess true_answer =
     (case guess of
        None \<Rightarrow> 0
      | Some g \<Rightarrow>
          (case numbers_equal_score F g true_answer of
             Inl _ \<Rightarrow> 0
           | Inr s \<Rightarrow> s))"

fun check_numbers_loop ::
  "'f float_ops \<Rightarrow> (string option \<times> string option) list \<Rightarrow> rat list \<Rightarrow> rat list" where
  "check_numbers_loop F [] scores = scores"
| "check_numbers_loop F ((guess, true_answer) # rest) scores =
     check_numbers_loop F rest (scores @ [check_numbers_score F guess true_answer])"

text \<open>How an f-string renders a value that may be \<open>None\<close>.\<close>

definition str_of :: "string option \<Rightarrow> string" where
  "str_of v = (case v of None \<Rightarrow> ''None'' | Some s \<Rightarrow> s)"

text \<open>
  The result is the lines printed and then the scores or the exception. \<open>kargs["question"]\<close>
  raises KeyError on a missing key; \<open>question[0]\<close>, \<open>answer[0]\<close> and \<open>responses[0]\<close> raise
  IndexError on an empty list, after the lines before them are printed.
\<close>

definition check_numbers ::
  "'f float_ops \<Rightarrow> 'p \<Rightarrow> string list \<Rightarrow> string option list \<Rightarrow> kwargs
     \<Rightarrow> string list \<times> (error + rat list)" where
  "check_numbers F prompts completions answer kargs =
     (case kargs ''question'' of
        None \<Rightarrow> ([], Inl KeyError)
      | Some question \<Rightarrow>
     (let responses = completions;
          extracted_responses = map match_numbers_search responses;
          out = [''START ============================'']
      in case question of
        [] \<Rightarrow> (out, Inl IndexError)
      | question0 # _ \<Rightarrow>
     (let out = out @ [''Question: '' @ question0]
      in case answer of
        [] \<Rightarrow> (out, Inl IndexError)
      | answer0 # _ \<Rightarrow>
     (let out = out @ [''Answer: '' @ str_of answer0]
      in case responses of
        [] \<Rightarrow> (out, Inl IndexError)
      | response0 # _ \<Rightarrow>
     (let out = out @ [''Response: '' @ response0,
                      ''Extracted: '' @ str_of (hd extracted_responses),
                      ''END =============================='']
      in (out, Inr (check_numbers_loop F (zip extracted_responses answer) [])))))))"

subsection \<open>Notions the properties are stated with\<close>

text \<open>
  The tagged structure, read off the pattern: \<open>format_at t\<close> says that \<open>t\<close> begins with
  optional whitespace, the reasoning markers around a non-empty text, any text, the
  solution markers around a non-empty text, optional whitespace, and then ends or goes on
  with a newline. \<open>format_occurs s\<close> says that this holds at the start of \<open>s\<close> or after
  one of its newlines.
\<close>

definition format_at :: "string \<Rightarrow> bool" where
  "format_at t \<longleftrightarrow>
     (\<exists>w1 r m a w2 post.
        t = w1 @ reasoning_start @ r @ reasoning_end @ m @ solution_start @ a @ solution_end
              @ w2 @ post
        \<and> (\<forall>c\<in>set w1. is_space c) \<and> r \<noteq> [] \<and> a \<noteq> [] \<and> (\<forall>c\<in>set w2. is_space c)
        \<and> end_of_line post)"

definition format_occurs :: "string \<Rightarrow> bool" where
  "format_occurs s \<longleftrightarrow>
     (\<exists>pre t. s = pre @ t \<and> (pre = [] \<or> last pre = newline) \<and> format_at t)"

text \<open>Group 1 of the match at every start position where \<open>match_format\<close> matches.\<close>

fun match_format_all :: "bool \<Rightarrow> string \<Rightarrow> string list" where
  "match_format_all bol [] = []"
| "match_format_all bol (c # cs) =
     (case (if bol then match_format_here (c # cs) else None) of
        Some g \<Rightarrow> [g]
      | None \<Rightarrow> []) @ match_format_all (c = newline) cs"

text \<open>The positions at which \<open>sub\<close> occurs in \<open>s\<close>; a marker occurs exactly once when
  there is one such position.\<close>

definition occurrences :: "string \<Rightarrow> string \<Rightarrow> nat list" where
  "occurrences sub s = filter (\<lambda>i. prefix sub (drop i s)) [0..<Suc (length s)]"

definition occurs_once :: "string \<Rightarrow> string \<Rightarrow> bool" where
  "occurs_once sub s = (length (occurrences sub s) = 1)"

definition markers :: "string list" where
  "markers = [reasoning_start, reasoning_end, solution_start, solution_end]"

text \<open>The number of markers that are missing or duplicated.\<close>

definition defects :: "string \<Rightarrow> nat" where
  "defects s = length (filter (\<lambda>m. \<not> occurs_once m s) markers)"

text \<open>
  The numeric token as the description of \<open>check_numbers\<close> words it: the text after the
  first solution-start marker, and in it the first maximal run of digits and dots.
\<close>

fun after_first :: "string \<Rightarrow> string \<Rightarrow> string option" where
  "after_first sub [] = (if sub = [] then Some [] else None)"
| "after_first sub (c # cs) =
     (if prefix sub (c # cs) then Some (drop (length sub) (c # cs)) else after_first sub cs)"

definition first_number_token :: "string \<Rightarrow> string option" where
  "first_number_token s =
     (case after_first solution_start s of
        None \<Rightarrow> None
      | Some rest \<Rightarrow>
          (let tok = takeWhile is_digit_or_dot (dropWhile (\<lambda>c. \<not> is_digit_or_dot c) rest)
           in if tok = [] then None else Some tok))"

subsection \<open>An instance of the float parameter\<close>

text \<open>
  Exact rational arithmetic on plain decimal numerals (surrounding whitespace, an optional
  sign, digits, an optional fraction). It stands in for binary floating point on inputs
  whose conversions, quotient and comparisons rounding does not change, and lets the model
  run on concrete batches.
\<close>

definition is_digit :: "char \<Rightarrow> bool" where
  "is_digit c = (48 \<le> (of_char c :: nat) \<and> (of_char c :: nat) \<le> 57)"

fun digits_value :: "nat \<Rightarrow> string \<Rightarrow> nat" where
  "digits_value acc [] = acc"
| "digits_value acc (c # cs) = digits_value (10 * acc + (of_char c - 48)) cs"

definition unsigned_decimal :: "string \<Rightarrow> rat option" where
  "unsigned_decimal s =
     (let ip = takeWhile is_digit s; rest = dropWhile is_digit s
      in case rest of
           [] \<Rightarrow> if ip = [] then None else Some (of_nat (digits_value 0 ip))
         | c # fp \<Rightarrow>
             if c = CHR ''.'' \<and> list_all is_digit fp \<and> (ip \<noteq> [] \<or> fp \<noteq> [])
             then Some (of_nat (digits_value 0 (ip @ fp)) / 10 ^ length fp)
             else None)"

definition decimal_of_str :: "string \<Rightarrow> rat option" where
  "decimal_of_str s =
     (case py_strip s of
        [] \<Rightarrow> None
      | c # cs \<Rightarrow>
          if c = CHR ''-'' then map_option uminus (unsigned_decimal cs)
          else if c = CHR ''+'' then unsigned_decimal cs
          else unsigned_decimal (c # cs))"

definition exact_ops :: "rat float_ops" where
  "exact_ops =
     \<lparr>float_of_str = decimal_of_str,
      float_is_zero = (\<lambda>y. y = 0),
      float_div = (\<lambda>x y. x / y),
      float_ge = (\<lambda>x y. x \<ge> y),
      float_le = (\<lambda>x y. x \<le> y),
      float_eq = (\<lambda>x y. x = y),
      float_lit = (\<lambda>q. q)\<rparr>"

subsection \<open>Python's float\<close>

text \<open>
  A second instance of the float parameter: \<open>float\<close> as CPython implements it, on IEEE 754
  binary64 with rounding to nearest, ties to even. A finite value is the rational it
  denotes. The two zeros are one value: no reward function can tell them apart, since they
  compare equal and both raise ZeroDivisionError as divisors.
\<close>

datatype binary64 = Finite rat | PosInf | NegInf | NaN

function pow2n :: "int \<Rightarrow> int" where
  "pow2n k = (if k \<le> 0 then 1 else 2 * pow2n (k - 1))"
  by pat_completeness auto
termination
  by (relation "measure (\<lambda>k. nat k)") auto

declare pow2n.simps [simp del]

definition pow2 :: "int \<Rightarrow> rat" where
  "pow2 k = (if 0 \<le> k then of_int (pow2n k) else 1 / of_int (pow2n (- k)))"

text \<open>\<open>ilog2 n\<close> is the position of the leading bit of \<open>n\<close>, \<open>log2_floor a\<close> the binary exponent
  of a positive rational.\<close>

function ilog2 :: "int \<Rightarrow> int" where
  "ilog2 n = (if n \<le> 1 then 0 else 1 + ilog2 (n div 2))"
  by pat_completeness auto
termination
  by (relation "measure (\<lambda>n. nat n)") auto

declare ilog2.simps [simp del]

definition log2_floor :: "rat \<Rightarrow> int" where
  "log2_floor a =
     (let (p, q) = quotient_of a;
          e = ilog2 p - ilog2 q
      in if pow2 e \<le> a then e else e - 1)"

definition round_half_even :: "rat \<Rightarrow> int" where
  "round_half_even m =
     (let f = \<lfloor>m\<rfloor>; r = m - of_int f
      in if r < 1/2 then f else if 1/2 < r then f + 1 else if even f then f else f + 1)"

text \<open>
  The exponent of a positive rational, held at the smallest normal exponent for the
  subnormal range, and its significand of at most 53 bits after rounding. The rounded
  value overflows when it reaches \<open>2 ^ 1024\<close>.
\<close>

definition float_exponent :: "rat \<Rightarrow> int" where
  "float_exponent a = max (log2_floor a) (- 1022)"

definition float_significand :: "rat \<Rightarrow> int" where
  "float_significand a = round_half_even (a / pow2 (float_exponent a - 52))"

definition float_overflows :: "rat \<Rightarrow> bool" where
  "float_overflows a =
     (1024 \<le> float_exponent a
      \<or> (float_exponent a = 1023 \<and> float_significand a = 9007199254740992))"

definition round_positive :: "rat \<Rightarrow> rat" where
  "round_positive a = of_int (float_significand a) * pow2 (float_exponent a - 52)"

definition round64 :: "rat \<Rightarrow> binary64" where
  "round64 x =
     (if x = 0 then Finite 0
      else if 0 < x
      then (if float_overflows x then PosInf else Finite (round_positive x))
      else (if float_overflows (- x) then NegInf else Finite (- round_positive (- x))))"

text \<open>
  \<open>float(s)\<close> for a string: underscores are accepted between digits and dropped, surrounding
  whitespace is ignored (the C whitespace, and the code points 133 and 160, which the
  conversion of a non-ASCII string turns into spaces), then a sign and either \<open>inf\<close>,
  \<open>infinity\<close>, \<open>nan\<close> in any case or a decimal numeral with an optional exponent. The
  numeral's exact value is rounded once.
\<close>

datatype float_text = Number rat | Infinity bool | NotANumber

definition is_float_space :: "char \<Rightarrow> bool" where
  "is_float_space c = ((of_char c :: nat) \<in> {9, 10, 11, 12, 13, 32, 133, 160})"

definition ascii_lower :: "char \<Rightarrow> char" where
  "ascii_lower c =
     (if 65 \<le> (of_char c :: nat) \<and> (of_char c :: nat) \<le> 90
      then char_of ((of_char c :: nat) + 32) else c)"

fun underscores_ok :: "char \<Rightarrow> string \<Rightarrow> bool" where
  "underscores_ok prev [] = (prev \<noteq> CHR ''_'')"
| "underscores_ok prev (c # cs) =
     (if c = CHR ''_'' then is_digit prev \<and> underscores_ok c cs
      else if prev = CHR ''_'' then is_digit c \<and> underscores_ok c cs
      else underscores_ok c cs)"

function pow10n :: "int \<Rightarrow> int" where
  "pow10n k = (if k \<le> 0 then 1 else 10 * pow10n (k - 1))"
  by pat_completeness auto
termination
  by (relation "measure (\<lambda>k. nat k)") auto

declare pow10n.simps [simp del]

definition pow10 :: "int \<Rightarrow> rat" where
  "pow10 k = (if 0 \<le> k then of_int (pow10n k) else 1 / of_int (pow10n (- k)))"

fun int_of_digits :: "int \<Rightarrow> string \<Rightarrow> int" where
  "int_of_digits acc [] = acc"
| "int_of_digits acc (c # cs) = int_of_digits (10 * acc + (of_char c - 48)) cs"

definition exponent_part :: "string \<Rightarrow> int option" where
  "exponent_part s =
     (let neg = (case s of [] \<Rightarrow> False | c # _ \<Rightarrow> c = CHR ''-'');
          ds = (case s of [] \<Rightarrow> [] | c # t \<Rightarrow> if c = CHR ''-'' \<or> c = CHR ''+'' then t else s)
      in if ds \<noteq> [] \<and> list_all is_digit ds
         then Some ((if neg then - 1 else 1) * int_of_digits 0 ds)
         else None)"

definition float_number :: "string \<Rightarrow> rat option" where
  "float_number s =
     (let ip = takeWhile is_digit s;
          r1 = dropWhile is_digit s;
          fp = (case r1 of [] \<Rightarrow> [] | c # t \<Rightarrow> if c = CHR ''.'' then takeWhile is_digit t else []);
          r2 = (case r1 of [] \<Rightarrow> [] | c # t \<Rightarrow> if c = CHR ''.'' then dropWhile is_digit t else r1);
          m = int_of_digits 0 (ip @ fp);
          k = int (length fp)
      in if ip = [] \<and> fp = [] then None
         else (case r2 of
                 [] \<Rightarrow> Some (of_int m * pow10 (- k))
               | c # t \<Rightarrow>
                   if ascii_lower c = CHR ''e''
                   then map_option (\<lambda>x. of_int m * pow10 (x - k)) (exponent_part t)
                   else None))"

definition float_text_of :: "string \<Rightarrow> float_text option" where
  "float_text_of s =
     (if \<not> underscores_ok (CHR 0x00) s then None
      else
        let t = filter (\<lambda>c. c \<noteq> CHR ''_'') s;
            t = rev (dropWhile is_float_space (rev (dropWhile is_float_space t)))
        in case t of
             [] \<Rightarrow> None
           | c # cs \<Rightarrow>
               let neg = (c = CHR ''-'');
                   body = (if c = CHR ''-'' \<or> c = CHR ''+'' then cs else c # cs);
                   low = map ascii_lower body
               in if low = ''inf'' \<or> low = ''infinity'' then Some (Infinity neg)
                  else if low = ''nan'' then Some NotANumber
                  else map_option (\<lambda>q. Number (if neg then - q else q)) (float_number body))"

definition binary64_of_str :: "string \<Rightarrow> binary64 option" where
  "binary64_of_str s =
     map_option
       (\<lambda>v. case v of
               Number q \<Rightarrow> round64 q
             | Infinity neg \<Rightarrow> if neg then NegInf else PosInf
             | NotANumber \<Rightarrow> NaN)
       (float_text_of s)"

text \<open>Division by a divisor that is not zero, and the comparisons; every comparison
  with \<open>nan\<close> is false.\<close>

fun binary64_div :: "binary64 \<Rightarrow> binary64 \<Rightarrow> binary64" where
  "binary64_div NaN y = NaN"
| "binary64_div x NaN = NaN"
| "binary64_div (Finite a) (Finite b) = round64 (a / b)"
| "binary64_div (Finite a) y = Finite 0"
| "binary64_div PosInf (Finite b) = (if 0 < b then PosInf else NegInf)"
| "binary64_div NegInf (Finite b) = (if 0 < b then NegInf else PosInf)"
| "binary64_div x y = NaN"

fun binary64_le :: "binary64 \<Rightarrow> binary64 \<Rightarrow> bool" where
  "binary64_le NaN y = False"
| "binary64_le x NaN = False"
| "binary64_le NegInf y = True"
| "binary64_le x PosInf = True"
| "binary64_le (Finite a) (Finite b) = (a \<le> b)"
| "binary64_le x y = False"

definition binary64_eq :: "binary64 \<Rightarrow> binary64 \<Rightarrow> bool" where
  "binary64_eq x y = (x \<noteq> NaN \<and> x = y)"

definition binary64_ops :: "binary64 float_ops" where
  "binary64_ops =
     \<lparr>float_of_str = binary64_of_str,
      float_is_zero = (\<lambda>y. y = Finite 0),
      float_div = binary64_div,
      float_ge = (\<lambda>x y. binary64_le y x),
      float_le = binary64_le,
      float_eq = binary64_eq,
      float_lit = round64\<rparr>"

section \<open>The matcher against the tagged structure\<close>

lemma literal_eq: "literal m k s = (if prefix m s then k (drop (length m) s) else None)"
  by (induction m k s rule: literal.induct) auto

lemma literal_append [simp]: "literal m k (m @ t) = k t"
  by (simp add: literal_eq)

lemma lazy_any_iff: "lazy_any k s \<noteq> None \<longleftrightarrow> (\<exists>u t. s = u @ t \<and> k t \<noteq> None)"
proof (induction s)
  case Nil
  then show ?case by simp
next
  case (Cons c cs)
  show ?case
  proof
    assume "lazy_any k (c # cs) \<noteq> None"
    then consider "k (c # cs) \<noteq> None" | "lazy_any k cs \<noteq> None"
      by (auto split: option.splits)
    then show "\<exists>u t. c # cs = u @ t \<and> k t \<noteq> None"
    proof cases
      case 1
      then have "c # cs = [] @ (c # cs) \<and> k (c # cs) \<noteq> None" by simp
      then show ?thesis by blast
    next
      case 2
      with Cons obtain u t where "cs = u @ t" "k t \<noteq> None" by blast
      then have "c # cs = (c # u) @ t \<and> k t \<noteq> None" by simp
      then show ?thesis by blast
    qed
  next
    assume "\<exists>u t. c # cs = u @ t \<and> k t \<noteq> None"
    then obtain u t where ut: "c # cs = u @ t" "k t \<noteq> None" by blast
    show "lazy_any k (c # cs) \<noteq> None"
    proof (cases u)
      case Nil
      with ut show ?thesis by (auto split: option.splits)
    next
      case (Cons a u')
      with ut have "cs = u' @ t" by simp
      with ut Cons.IH have "lazy_any k cs \<noteq> None" by blast
      then show ?thesis by (auto split: option.splits)
    qed
  qed
qed

lemma lazy_any1_iff: "lazy_any1 k s \<noteq> None \<longleftrightarrow> (\<exists>u t. s = u @ t \<and> u \<noteq> [] \<and> k t \<noteq> None)"
proof (cases s)
  case Nil
  then show ?thesis by (simp add: lazy_any1_def)
next
  case (Cons c cs)
  have "(\<exists>u t. cs = u @ t \<and> k t \<noteq> None) \<longleftrightarrow> (\<exists>u t. c # cs = u @ t \<and> u \<noteq> [] \<and> k t \<noteq> None)"
  proof
    assume "\<exists>u t. cs = u @ t \<and> k t \<noteq> None"
    then obtain u t where "cs = u @ t" "k t \<noteq> None" by blast
    then have "c # cs = (c # u) @ t \<and> c # u \<noteq> [] \<and> k t \<noteq> None" by simp
    then show "\<exists>u t. c # cs = u @ t \<and> u \<noteq> [] \<and> k t \<noteq> None" by blast
  next
    assume "\<exists>u t. c # cs = u @ t \<and> u \<noteq> [] \<and> k t \<noteq> None"
    then obtain u t where ut: "c # cs = u @ t" "u \<noteq> []" "k t \<noteq> None" by blast
    then obtain u' where "u = c # u'" by (cases u) auto
    with ut have "cs = u' @ t" by simp
    with ut show "\<exists>u t. cs = u @ t \<and> k t \<noteq> None" by blast
  qed
  then show ?thesis unfolding Cons lazy_any1_def by (simp only: list.case lazy_any_iff)
qed

lemma lazy_group_iff: "lazy_group k g s \<noteq> None \<longleftrightarrow> (\<exists>u t. s = u @ t \<and> k (g @ u) t \<noteq> None)"
proof (induction s arbitrary: g)
  case Nil
  then show ?case by simp
next
  case (Cons c cs)
  show ?case
  proof
    assume "lazy_group k g (c # cs) \<noteq> None"
    then consider "k g (c # cs) \<noteq> None" | "lazy_group k (g @ [c]) cs \<noteq> None"
      by (auto split: option.splits)
    then show "\<exists>u t. c # cs = u @ t \<and> k (g @ u) t \<noteq> None"
    proof cases
      case 1
      then have "c # cs = [] @ (c # cs) \<and> k (g @ []) (c # cs) \<noteq> None" by simp
      then show ?thesis by blast
    next
      case 2
      with Cons[of "g @ [c]"] obtain u t where "cs = u @ t" "k ((g @ [c]) @ u) t \<noteq> None" by blast
      then have "c # cs = (c # u) @ t \<and> k (g @ (c # u)) t \<noteq> None" by simp
      then show ?thesis by blast
    qed
  next
    assume "\<exists>u t. c # cs = u @ t \<and> k (g @ u) t \<noteq> None"
    then obtain u t where ut: "c # cs = u @ t" "k (g @ u) t \<noteq> None" by blast
    show "lazy_group k g (c # cs) \<noteq> None"
    proof (cases u)
      case Nil
      with ut show ?thesis by (auto split: option.splits)
    next
      case (Cons a u')
      with ut have "cs = u' @ t" "k ((g @ [c]) @ u') t \<noteq> None" by auto
      with Cons.IH[of "g @ [c]"] have "lazy_group k (g @ [c]) cs \<noteq> None" by blast
      then show ?thesis by (auto split: option.splits)
    qed
  qed
qed

lemma lazy_group1_iff:
  "lazy_group1 k s \<noteq> None \<longleftrightarrow> (\<exists>u t. s = u @ t \<and> u \<noteq> [] \<and> k u t \<noteq> None)"
proof (cases s)
  case Nil
  then show ?thesis by (simp add: lazy_group1_def)
next
  case (Cons c cs)
  have "(\<exists>u t. cs = u @ t \<and> k ([c] @ u) t \<noteq> None) \<longleftrightarrow> (\<exists>u t. c # cs = u @ t \<and> u \<noteq> [] \<and> k u t \<noteq> None)"
  proof
    assume "\<exists>u t. cs = u @ t \<and> k ([c] @ u) t \<noteq> None"
    then obtain u t where "cs = u @ t" "k ([c] @ u) t \<noteq> None" by blast
    then have "c # cs = (c # u) @ t \<and> c # u \<noteq> [] \<and> k (c # u) t \<noteq> None" by simp
    then show "\<exists>u t. c # cs = u @ t \<and> u \<noteq> [] \<and> k u t \<noteq> None" by blast
  next
    assume "\<exists>u t. c # cs = u @ t \<and> u \<noteq> [] \<and> k u t \<noteq> None"
    then obtain u t where ut: "c # cs = u @ t" "u \<noteq> []" "k u t \<noteq> None" by blast
    then obtain u' where "u = c # u'" by (cases u) auto
    with ut have "cs = u' @ t" "k ([c] @ u') t \<noteq> None" by auto
    then show "\<exists>u t. cs = u @ t \<and> k ([c] @ u) t \<noteq> None" by blast
  qed
  then show ?thesis unfolding Cons lazy_group1_def by (simp only: list.case lazy_group_iff)
qed

lemma greedy_space_iff:
  "greedy_space k s \<noteq> None \<longleftrightarrow> (\<exists>w t. s = w @ t \<and> (\<forall>c\<in>set w. is_space c) \<and> k t \<noteq> None)"
proof (induction s)
  case Nil
  then show ?case by simp
next
  case (Cons c cs)
  show ?case
  proof
    assume "greedy_space k (c # cs) \<noteq> None"
    then consider "k (c # cs) \<noteq> None" | "is_space c" "greedy_space k cs \<noteq> None"
      by (auto split: option.splits if_splits)
    then show "\<exists>w t. c # cs = w @ t \<and> (\<forall>c\<in>set w. is_space c) \<and> k t \<noteq> None"
    proof cases
      case 1
      then have "c # cs = [] @ (c # cs) \<and> (\<forall>c\<in>set []. is_space c) \<and> k (c # cs) \<noteq> None" by simp
      then show ?thesis by blast
    next
      case 2
      with Cons obtain w t where "cs = w @ t" "\<forall>c\<in>set w. is_space c" "k t \<noteq> None" by blast
      with 2 have "c # cs = (c # w) @ t \<and> (\<forall>c\<in>set (c # w). is_space c) \<and> k t \<noteq> None" by simp
      then show ?thesis by blast
    qed
  next
    assume "\<exists>w t. c # cs = w @ t \<and> (\<forall>c\<in>set w. is_space c) \<and> k t \<noteq> None"
    then obtain w t where wt: "c # cs = w @ t" "\<forall>c\<in>set w. is_space c" "k t \<noteq> None" by blast
    show "greedy_space k (c # cs) \<noteq> None"
    proof (cases w)
      case Nil
      with wt show ?thesis by (auto split: option.splits)
    next
      case (Cons a w')
      with wt have "cs = w' @ t" "\<forall>c\<in>set w'. is_space c" "is_space c" by auto
      with wt Cons.IH have "greedy_space k cs \<noteq> None" "is_space c" by blast+
      then show ?thesis by (auto split: option.splits)
    qed
  qed
qed

lemma literal_iff: "literal m k s \<noteq> None \<longleftrightarrow> (\<exists>t. s = m @ t \<and> k t \<noteq> None)"
  by (auto simp: literal_eq prefix_def)

lemma end_test_iff: "(if end_of_line rest then Some g else None) \<noteq> None \<longleftrightarrow> end_of_line rest"
  by simp

lemma match_format_here_iff: "match_format_here t \<noteq> None \<longleftrightarrow> format_at t"
proof
  assume "match_format_here t \<noteq> None"
  then obtain w1 t1 where 1: "t = w1 @ t1" "\<forall>c\<in>set w1. is_space c"
      and k1: "literal reasoning_start (lazy_any1 (literal reasoning_end
       (lazy_any (literal solution_start (lazy_group1 (\<lambda>g. literal solution_end
         (greedy_space (\<lambda>rest. if end_of_line rest then Some g else None)))))))) t1 \<noteq> None"
    unfolding match_format_here_def greedy_space_iff by blast
  from k1 obtain t2 where 2: "t1 = reasoning_start @ t2"
      and k2: "lazy_any1 (literal reasoning_end
       (lazy_any (literal solution_start (lazy_group1 (\<lambda>g. literal solution_end
         (greedy_space (\<lambda>rest. if end_of_line rest then Some g else None))))))) t2 \<noteq> None"
    unfolding literal_iff by blast
  from k2 obtain r t3 where 3: "t2 = r @ t3" "r \<noteq> []"
      and k3: "literal reasoning_end
       (lazy_any (literal solution_start (lazy_group1 (\<lambda>g. literal solution_end
         (greedy_space (\<lambda>rest. if end_of_line rest then Some g else None)))))) t3 \<noteq> None"
    unfolding lazy_any1_iff by blast
  from k3 obtain t4 where 4: "t3 = reasoning_end @ t4"
      and k4: "lazy_any (literal solution_start (lazy_group1 (\<lambda>g. literal solution_end
         (greedy_space (\<lambda>rest. if end_of_line rest then Some g else None))))) t4 \<noteq> None"
    unfolding literal_iff by blast
  from k4 obtain m t5 where 5: "t4 = m @ t5"
      and k5: "literal solution_start (lazy_group1 (\<lambda>g. literal solution_end
         (greedy_space (\<lambda>rest. if end_of_line rest then Some g else None)))) t5 \<noteq> None"
    unfolding lazy_any_iff by blast
  from k5 obtain t6 where 6: "t5 = solution_start @ t6"
      and k6: "lazy_group1 (\<lambda>g. literal solution_end
         (greedy_space (\<lambda>rest. if end_of_line rest then Some g else None))) t6 \<noteq> None"
    unfolding literal_iff by blast
  from k6 obtain a t7 where 7: "t6 = a @ t7" "a \<noteq> []"
      and k7: "literal solution_end
         (greedy_space (\<lambda>rest. if end_of_line rest then Some a else None)) t7 \<noteq> None"
    unfolding lazy_group1_iff by blast
  from k7 obtain t8 where 8: "t7 = solution_end @ t8"
      and k8: "greedy_space (\<lambda>rest. if end_of_line rest then Some a else None) t8 \<noteq> None"
    unfolding literal_iff by blast
  from k8 obtain w2 post where 9: "t8 = w2 @ post" "\<forall>c\<in>set w2. is_space c" "end_of_line post"
    unfolding greedy_space_iff end_test_iff by blast
  have "t = w1 @ reasoning_start @ r @ reasoning_end @ m @ solution_start @ a @ solution_end
              @ w2 @ post"
    using 1 2 3 4 5 6 7 8 9 by simp
  with 1 3 7 9 show "format_at t" unfolding format_at_def by blast
next
  assume "format_at t"
  then obtain w1 r m a w2 post where
    t: "t = w1 @ reasoning_start @ r @ reasoning_end @ m @ solution_start @ a @ solution_end
              @ w2 @ post"
    and h: "\<forall>c\<in>set w1. is_space c" "r \<noteq> []" "a \<noteq> []" "\<forall>c\<in>set w2. is_space c" "end_of_line post"
    unfolding format_at_def by blast
  from h have k8: "greedy_space (\<lambda>rest. if end_of_line rest then Some a else None) (w2 @ post) \<noteq> None"
    unfolding greedy_space_iff end_test_iff by blast
  then have k7: "literal solution_end
         (greedy_space (\<lambda>rest. if end_of_line rest then Some a else None)) (solution_end @ w2 @ post) \<noteq> None"
    by simp
  with h have k6: "lazy_group1 (\<lambda>g. literal solution_end
         (greedy_space (\<lambda>rest. if end_of_line rest then Some g else None))) (a @ solution_end @ w2 @ post) \<noteq> None"
    unfolding lazy_group1_iff by blast
  then have k5: "literal solution_start (lazy_group1 (\<lambda>g. literal solution_end
         (greedy_space (\<lambda>rest. if end_of_line rest then Some g else None))))
          (solution_start @ a @ solution_end @ w2 @ post) \<noteq> None"
    by simp
  then have k4: "lazy_any (literal solution_start (lazy_group1 (\<lambda>g. literal solution_end
         (greedy_space (\<lambda>rest. if end_of_line rest then Some g else None)))))
          (m @ solution_start @ a @ solution_end @ w2 @ post) \<noteq> None"
    unfolding lazy_any_iff by blast
  then have k3: "literal reasoning_end (lazy_any (literal solution_start (lazy_group1 (\<lambda>g. literal solution_end
         (greedy_space (\<lambda>rest. if end_of_line rest then Some g else None))))))
          (reasoning_end @ m @ solution_start @ a @ solution_end @ w2 @ post) \<noteq> None"
    by simp
  with h have k2: "lazy_any1 (literal reasoning_end (lazy_any (literal solution_start (lazy_group1 (\<lambda>g. literal solution_end
         (greedy_space (\<lambda>rest. if end_of_line rest then Some g else None)))))))
          (r @ reasoning_end @ m @ solution_start @ a @ solution_end @ w2 @ post) \<noteq> None"
    unfolding lazy_any1_iff by blast
  then have k1: "literal reasoning_start (lazy_any1 (literal reasoning_end (lazy_any (literal solution_start (lazy_group1 (\<lambda>g. literal solution_end
         (greedy_space (\<lambda>rest. if end_of_line rest then Some g else None))))))))
          (reasoning_start @ r @ reasoning_end @ m @ solution_start @ a @ solution_end @ w2 @ post) \<noteq> None"
    by simp
  with h show "match_format_here t \<noteq> None"
    unfolding match_format_here_def t greedy_space_iff by blast
qed

lemma match_format_scan_iff:
  "match_format_scan bol s \<noteq> None \<longleftrightarrow>
     (\<exists>pre t. s = pre @ t \<and> (if pre = [] then bol else last pre = newline) \<and> format_at t)"
proof (induction s arbitrary: bol)
  case Nil
  then show ?case using match_format_here_iff[of "[]"] by auto
next
  case (Cons c cs)
  show ?case
  proof
    assume "match_format_scan bol (c # cs) \<noteq> None"
    then consider "bol" "match_format_here (c # cs) \<noteq> None" | "match_format_scan (c = newline) cs \<noteq> None"
      by (auto split: option.splits if_splits)
    then show "\<exists>pre t. c # cs = pre @ t \<and> (if pre = [] then bol else last pre = newline) \<and> format_at t"
    proof cases
      case 1
      then have "format_at (c # cs)" using match_format_here_iff by blast
      with 1 have "c # cs = [] @ (c # cs) \<and> (if [] = ([]::string) then bol else last [] = newline) \<and> format_at (c # cs)"
        by simp
      then show ?thesis by blast
    next
      case 2
      then obtain pre t where pt: "cs = pre @ t" "if pre = [] then c = newline else last pre = newline" "format_at t"
        using Cons.IH[of "c = newline"] by blast
      then have "c # cs = (c # pre) @ t \<and> (if c # pre = [] then bol else last (c # pre) = newline) \<and> format_at t"
        by (auto split: if_splits)
      then show ?thesis by blast
    qed
  next
    assume "\<exists>pre t. c # cs = pre @ t \<and> (if pre = [] then bol else last pre = newline) \<and> format_at t"
    then obtain pre t where pt: "c # cs = pre @ t" "if pre = [] then bol else last pre = newline" "format_at t"
      by blast
    show "match_format_scan bol (c # cs) \<noteq> None"
    proof (cases pre)
      case Nil
      with pt have "bol" "format_at (c # cs)" by auto
      then have "bol" "match_format_here (c # cs) \<noteq> None" using match_format_here_iff by blast+
      then show ?thesis by (auto split: option.splits)
    next
      case (Cons a pre')
      with pt have "cs = pre' @ t \<and> (if pre' = [] then c = newline else last pre' = newline) \<and> format_at t"
        by (auto split: if_splits)
      then have "match_format_scan (c = newline) cs \<noteq> None"
        using Cons.IH[of "c = newline"] by blast
      then show ?thesis by (auto split: option.splits)
    qed
  qed
qed

lemma match_format_search_iff: "match_format_search s \<noteq> None \<longleftrightarrow> format_occurs s"
proof -
  have "\<And>pre :: string. (if pre = [] then True else last pre = newline) = (pre = [] \<or> last pre = newline)"
    by simp
  then show ?thesis
    unfolding match_format_search_def match_format_scan_iff format_occurs_def by simp
qed

lemma match_format_exactly_loop_eq:
  "match_format_exactly_loop cs scores =
     scores @ map (\<lambda>c. if match_format_search c \<noteq> None then 3 else 0) cs"
  by (induction cs arbitrary: scores) (simp_all add: Let_def)

lemma match_format_exactly_eq:
  "match_format_exactly prompts cs kargs = map (\<lambda>c. if format_occurs c then 3 else 0) cs"
  unfolding match_format_exactly_def match_format_exactly_loop_eq match_format_search_iff by simp

section \<open>The exact-format reward\<close>

text \<open>
  Claim C1. A completion that is, between leading and trailing whitespace, one tagged
  block (reasoning-start marker, non-empty reasoning text, reasoning-end marker,
  solution-start marker, non-empty solution text, solution-end marker) gets the score 3
  from \<open>match_format_exactly\<close>, and 3 is the largest score the function gives.
\<close>

theorem exact_format_single_block:
  assumes "i < length completions"
    and "completions ! i =
           w1 @ reasoning_start @ r @ reasoning_end @ solution_start @ a @ solution_end @ w2"
    and "\<forall>c\<in>set w1. is_space c" and "\<forall>c\<in>set w2. is_space c"
    and "r \<noteq> []" and "a \<noteq> []"
  shows "match_format_exactly prompts completions kargs ! i = 3
         \<and> (\<forall>j<length completions. match_format_exactly prompts completions kargs ! j \<le> 3)"
proof -
  have "completions ! i =
      w1 @ reasoning_start @ r @ reasoning_end @ [] @ solution_start @ a @ solution_end @ w2 @ []"
    using assms(2) by simp
  moreover have "end_of_line []" by (simp add: end_of_line_def)
  ultimately have "format_at (completions ! i)"
    unfolding format_at_def using assms(3-6) by blast
  then have "format_occurs (completions ! i)"
    unfolding format_occurs_def by (metis append_Nil)
  then show ?thesis using assms(1) by (simp add: match_format_exactly_eq)
qed

theorem exact_format_single_block_witness:
  "match_format_exactly ([] :: string list)
     ['' <start_working_out>Let me think!<end_working_out><SOLUTION>2</SOLUTION>'' @ [newline]]
     Map.empty ! 0 = 3"
  using exact_format_single_block [of 0
      "['' <start_working_out>Let me think!<end_working_out><SOLUTION>2</SOLUTION>'' @ [newline]]"
      "'' ''" "''Let me think!''" "''2''" "[newline]" "[] :: string list" Map.empty]
  by (simp add: reasoning_start_def reasoning_end_def solution_start_def solution_end_def
      is_space_def newline_def)

text \<open>
  Claim C6, as stated, fails: two complete blocks on separate lines match at two start
  positions (capturing 1 and 2), and the completion still gets the bonus, since the code
  only asks whether \<open>search\<close> finds a match.
\<close>

theorem exact_format_two_blocks_rewarded:
  "match_format_all True
     (''<start_working_out>a<end_working_out><SOLUTION>1</SOLUTION>'' @ [newline]
        @ ''<start_working_out>b<end_working_out><SOLUTION>2</SOLUTION>'') = [''1'', ''2'']
   \<and> match_format_exactly ([] :: string list)
     [''<start_working_out>a<end_working_out><SOLUTION>1</SOLUTION>'' @ [newline]
        @ ''<start_working_out>b<end_working_out><SOLUTION>2</SOLUTION>''] Map.empty = [3]"
  by code_simp

text \<open>
  Claim C6, amended. \<open>match_format_exactly\<close> gives 3 exactly when the tagged structure
  occurs at least once in the completion, anchored at the start of a line and ending at
  the end of a line, and 0 otherwise.
\<close>

theorem exact_format_at_least_once:
  assumes "i < length completions"
  shows "match_format_exactly prompts completions kargs ! i =
           (if format_occurs (completions ! i) then 3 else 0)"
  using assms by (simp add: match_format_exactly_eq)

theorem exact_format_at_least_once_witness:
  "format_occurs (''<start_working_out>a<end_working_out><SOLUTION>1</SOLUTION>'' @ [newline]
        @ ''<start_working_out>b<end_working_out><SOLUTION>2</SOLUTION>'')
   \<and> \<not> format_occurs ''x<start_working_out>a<end_working_out><SOLUTION>1</SOLUTION>''"
proof -
  have a: "match_format_exactly ([] :: string list)
     [''<start_working_out>a<end_working_out><SOLUTION>1</SOLUTION>'' @ [newline]
        @ ''<start_working_out>b<end_working_out><SOLUTION>2</SOLUTION>''] Map.empty ! 0 = 3"
    by code_simp
  have b: "match_format_exactly ([] :: string list)
     [''x<start_working_out>a<end_working_out><SOLUTION>1</SOLUTION>''] Map.empty ! 0 = 0"
    by code_simp
  show ?thesis
    using a b
      exact_format_at_least_once [of 0
        "[''<start_working_out>a<end_working_out><SOLUTION>1</SOLUTION>'' @ [newline]
           @ ''<start_working_out>b<end_working_out><SOLUTION>2</SOLUTION>'']"
        "[] :: string list" Map.empty]
      exact_format_at_least_once [of 0
        "[''x<start_working_out>a<end_working_out><SOLUTION>1</SOLUTION>'']"
        "[] :: string list" Map.empty]
    by (simp split: if_splits)
qed

section \<open>The approximate-format reward\<close>

lemma occurrences_Nil: "occurrences sub [] = (if sub = [] then [0] else [])"
  by (simp add: occurrences_def)

lemma upt_0_Suc_Suc: "[0..<Suc (Suc n)] = 0 # map Suc [0..<Suc n]"
proof -
  have a: "[0..<Suc (Suc n)] = 0 # [Suc 0..<Suc (Suc n)]"
    by (rule upt_conv_Cons) simp
  have b: "[Suc 0..<Suc (Suc n)] = map Suc [0..<Suc n]"
    by (rule map_Suc_upt[symmetric])
  show ?thesis by (simp only: a b)
qed

lemma occurrences_Cons:
  "occurrences sub (c # cs) =
     (if prefix sub (c # cs) then [0] else []) @ map Suc (occurrences sub cs)"
  unfolding occurrences_def length_Cons upt_0_Suc_Suc
  by (simp add: filter_map comp_def del: upt_Suc)

lemma length_occurrences_Cons:
  "length (occurrences sub (c # cs)) =
     (if prefix sub (c # cs) then 1 else 0) + length (occurrences sub cs)"
  by (simp add: occurrences_Cons)

lemma occurrences_skip:
  "\<forall>c\<in>set (take n s). c \<noteq> a \<Longrightarrow>
     length (occurrences (a # rest) s) = length (occurrences (a # rest) (drop n s))"
proof (induction s arbitrary: n)
  case Nil
  then show ?case by simp
next
  case (Cons c cs)
  show ?case
  proof (cases n)
    case 0
    then show ?thesis by simp
  next
    case (Suc m)
    with Cons.prems have "c \<noteq> a" "\<forall>c\<in>set (take m cs). c \<noteq> a" by auto
    with Cons.IH[of m] Suc show ?thesis by (simp add: length_occurrences_Cons)
  qed
qed

lemma py_count_occurrences:
  assumes "a \<notin> set rest"
  shows "py_count (a # rest) s = length (occurrences (a # rest) s)"
proof (induction s rule: length_induct)
  case (1 s)
  show ?case
  proof (cases s)
    case Nil
    then show ?thesis by (simp add: occurrences_Nil)
  next
    case (Cons c cs)
    show ?thesis
    proof (cases "prefix (a # rest) (c # cs)")
      case True
      then obtain t where t: "cs = rest @ t" by (auto simp: prefix_def)
      then have "\<forall>x\<in>set (take (length rest) cs). x \<noteq> a" using assms by auto
      then have skip: "length (occurrences (a # rest) cs)
                   = length (occurrences (a # rest) (drop (length rest) cs))"
        by (rule occurrences_skip)
      have "length (drop (length rest) cs) < length s" using Cons by simp
      with 1 have "py_count (a # rest) (drop (length rest) cs)
                   = length (occurrences (a # rest) (drop (length rest) cs))" by blast
      with True skip Cons show ?thesis
        by (simp add: length_occurrences_Cons del: Cons_prefix_Cons)
    next
      case False
      have "length cs < length s" using Cons by simp
      with 1 have "py_count (a # rest) cs = length (occurrences (a # rest) cs)" by blast
      with False Cons show ?thesis
        by (simp add: length_occurrences_Cons del: Cons_prefix_Cons)
    qed
  qed
qed

lemma py_count_marker:
  "m \<in> set markers \<Longrightarrow> (py_count m s = 1) = occurs_once m s"
  unfolding markers_def occurs_once_def reasoning_start_def reasoning_end_def
    solution_start_def solution_end_def
  by (auto simp: py_count_occurrences)

lemma match_format_approximately_loop_eq:
  "match_format_approximately_loop cs scores =
     scores @ map (\<lambda>c. \<Sum>m\<leftarrow>markers. if occurs_once m c then 1/2 else - (1/2)) cs"
proof (induction cs arbitrary: scores)
  case Nil
  then show ?case by simp
next
  case (Cons c cs)
  have m: "reasoning_start \<in> set markers" "reasoning_end \<in> set markers"
    "solution_start \<in> set markers" "solution_end \<in> set markers"
    by (simp_all add: markers_def)
  show ?case
    unfolding match_format_approximately_loop.simps Let_def Cons.IH
      py_count_marker[OF m(1)] py_count_marker[OF m(2)] py_count_marker[OF m(3)] py_count_marker[OF m(4)]
    by (simp add: markers_def)
qed

lemma sum_halves:
  "(\<Sum>m\<leftarrow>ms. if P m then 1/2 else - (1/2)) = (of_nat (length ms) / 2 :: rat) - of_nat (length (filter (\<lambda>m. \<not> P m) ms))"
  by (induction ms) (auto simp: field_simps)

lemma marker_sum_defects:
  "(\<Sum>m\<leftarrow>markers. if occurs_once m c then 1/2 else - (1/2)) = (2 :: rat) - of_nat (defects c)"
  unfolding defects_def sum_halves by (simp add: markers_def)

lemma defects_zero: "defects c = 0 \<longleftrightarrow> (\<forall>m\<in>set markers. occurs_once m c)"
  unfolding defects_def by (simp add: filter_empty_conv)

text \<open>
  Claim C4. The score of \<open>match_format_approximately\<close> for a completion is the sum over
  the four markers of +0.5 when the marker occurs exactly once in the completion and
  -0.5 otherwise. It is therefore 2 minus the number of markers that are missing or
  duplicated, so a completion with more such markers scores strictly less, and the
  score is at most 2, with equality exactly when each of the four markers occurs
  exactly once. \<open>str.count\<close> counts occurrences that do not overlap; no marker can
  overlap itself, so for them it counts every occurrence.
\<close>

theorem approximate_format_score:
  assumes "i < length completions" and "j < length completions"
  shows "match_format_approximately prompts completions kargs ! i
           = (\<Sum>m\<leftarrow>markers. if occurs_once m (completions ! i) then 1/2 else - (1/2))
         \<and> match_format_approximately prompts completions kargs ! i
           = 2 - of_nat (defects (completions ! i))
         \<and> (defects (completions ! i) < defects (completions ! j) \<longrightarrow>
              match_format_approximately prompts completions kargs ! j
                < match_format_approximately prompts completions kargs ! i)
         \<and> match_format_approximately prompts completions kargs ! i \<le> 2
         \<and> (match_format_approximately prompts completions kargs ! i = 2
              \<longleftrightarrow> (\<forall>m\<in>set markers. occurs_once m (completions ! i)))"
proof -
  have s: "\<And>n. n < length completions \<Longrightarrow>
      match_format_approximately prompts completions kargs ! n
           = (\<Sum>m\<leftarrow>markers. if occurs_once m (completions ! n) then 1/2 else - (1/2))"
    by (simp add: match_format_approximately_def match_format_approximately_loop_eq)
  have d: "\<And>n. n < length completions \<Longrightarrow>
      match_format_approximately prompts completions kargs ! n = 2 - of_nat (defects (completions ! n))"
    by (simp only: s marker_sum_defects)
  have z: "(2 - (of_nat (defects (completions ! i)) :: rat) = 2) \<longleftrightarrow> defects (completions ! i) = 0"
    by simp
  show ?thesis
    using assms s[of i] d[of i] d[of j] z defects_zero[of "completions ! i"] by simp
qed

theorem approximate_format_score_witness:
  "match_format_approximately ([] :: string list)
     [''<start_working_out>a<end_working_out><SOLUTION>1</SOLUTION>'',
      ''<start_working_out>a<end_working_out><SOLUTION>1<SOLUTION>''] Map.empty ! 1
   < match_format_approximately ([] :: string list)
     [''<start_working_out>a<end_working_out><SOLUTION>1</SOLUTION>'',
      ''<start_working_out>a<end_working_out><SOLUTION>1<SOLUTION>''] Map.empty ! 0
   \<and> match_format_approximately ([] :: string list)
     [''<start_working_out>a<end_working_out><SOLUTION>1</SOLUTION>'',
      ''<start_working_out>a<end_working_out><SOLUTION>1<SOLUTION>''] Map.empty ! 0 = 2
   \<and> occurs_once solution_end ''<start_working_out>a<end_working_out><SOLUTION>1</SOLUTION>''"
proof -
  have d0: "defects ''<start_working_out>a<end_working_out><SOLUTION>1</SOLUTION>'' = 0"
    by code_simp
  have d1: "defects ''<start_working_out>a<end_working_out><SOLUTION>1<SOLUTION>'' = 2"
    by code_simp
  let ?cs = "[''<start_working_out>a<end_working_out><SOLUTION>1</SOLUTION>'',
              ''<start_working_out>a<end_working_out><SOLUTION>1<SOLUTION>'']"
  let ?f = "match_format_approximately ([] :: string list) ?cs Map.empty"
  have T: "?f ! 0 = (\<Sum>m\<leftarrow>markers. if occurs_once m (?cs ! 0) then 1/2 else - (1/2))
         \<and> ?f ! 0 = 2 - of_nat (defects (?cs ! 0))
         \<and> (defects (?cs ! 0) < defects (?cs ! 1) \<longrightarrow> ?f ! 1 < ?f ! 0)
         \<and> ?f ! 0 \<le> 2
         \<and> (?f ! 0 = 2 \<longleftrightarrow> (\<forall>m\<in>set markers. occurs_once m (?cs ! 0)))"
    by (rule approximate_format_score) simp_all
  from T have "?f ! 0 = 2 - of_nat (defects (?cs ! 0))" by blast
  with d0 have s0: "?f ! 0 = 2" by simp
  from T have "defects (?cs ! 0) < defects (?cs ! 1) \<longrightarrow> ?f ! 1 < ?f ! 0" by blast
  with d0 d1 have lt: "?f ! 1 < ?f ! 0" by simp
  from T s0 have "\<forall>m\<in>set markers. occurs_once m (?cs ! 0)" by blast
  then have "occurs_once solution_end
      ''<start_working_out>a<end_working_out><SOLUTION>1</SOLUTION>''"
    by (simp add: markers_def)
  with s0 lt show ?thesis by blast
qed

section \<open>The loops over the batch\<close>

lemma check_answer_loop_Inr:
  assumes "check_answer_loop F ps acc = Inr scores"
  shows "map (\<lambda>(g, t). check_answer_score F g t) ps = map Inr (drop (length acc) scores)
         \<and> take (length acc) scores = acc"
  using assms
proof (induction ps arbitrary: acc)
  case Nil
  then show ?case by simp
next
  case (Cons p ps)
  obtain g t where p: "p = (g, t)" by (cases p)
  show ?case
  proof (cases "check_answer_score F g t")
    case (Inl e)
    with p Cons.prems show ?thesis by simp
  next
    case (Inr s)
    with p Cons.prems have "check_answer_loop F ps (acc @ [s]) = Inr scores" by simp
    from Cons.IH[OF this]
    have m: "map (\<lambda>(g, t). check_answer_score F g t) ps = map Inr (drop (Suc (length acc)) scores)"
      and tk: "take (Suc (length acc)) scores = acc @ [s]" by simp_all
    from tk have len: "length acc < length scores"
      by (metis length_append_singleton length_take lessI min_less_iff_conj)
    from tk have "take (Suc (length acc)) scores ! length acc = s" by simp
    with len have nth: "scores ! length acc = s" by simp
    from tk have "take (length acc) (take (Suc (length acc)) scores) = acc" by simp
    then have tk': "take (length acc) scores = acc" by (simp add: min_def)
    have "drop (length acc) scores = s # drop (Suc (length acc)) scores"
      using len nth Cons_nth_drop_Suc[of "length acc" scores] by simp
    with m p Inr tk' show ?thesis by simp
  qed
qed

lemma check_answer_loop_total:
  assumes "\<forall>(g, t)\<in>set ps. \<exists>s. check_answer_score F g t = Inr s"
  shows "\<exists>scores. check_answer_loop F ps acc = Inr scores"
  using assms
proof (induction ps arbitrary: acc)
  case Nil
  then show ?case by simp
next
  case (Cons p ps)
  obtain g t where p: "p = (g, t)" by (cases p)
  with Cons.prems obtain s where s: "check_answer_score F g t = Inr s" by auto
  from Cons.prems have "\<forall>(g, t)\<in>set ps. \<exists>s. check_answer_score F g t = Inr s" by simp
  from Cons.IH[OF this, of "acc @ [s]"] p s show ?case by simp
qed

lemma check_answer_nth:
  assumes "check_answer F prompts completions answer kargs = Inr scores"
  shows "length scores = min (length completions) (length answer)"
    and "i < length completions \<Longrightarrow> i < length answer \<Longrightarrow>
           check_answer_score F (match_format_search (completions ! i)) (answer ! i)
             = Inr (scores ! i)"
proof -
  let ?ps = "zip (map match_format_search completions) answer"
  from assms have "check_answer_loop F ?ps [] = Inr scores"
    by (simp add: check_answer_def)
  from check_answer_loop_Inr[OF this]
  have m: "map (\<lambda>(g, t). check_answer_score F g t) ?ps = map Inr scores" by simp
  from arg_cong[OF m, of length] show l: "length scores = min (length completions) (length answer)" by simp
  assume i: "i < length completions" "i < length answer"
  with l have b: "i < length ?ps" "i < length scores" by simp_all
  have "(\<lambda>(g, t). check_answer_score F g t) (?ps ! i)
          = map (\<lambda>(g, t). check_answer_score F g t) ?ps ! i"
    using b(1) by (simp only: nth_map)
  also have "\<dots> = map Inr scores ! i" by (simp only: m)
  also have "\<dots> = Inr (scores ! i)" using b(2) by (simp only: nth_map)
  finally show "check_answer_score F (match_format_search (completions ! i)) (answer ! i)
             = Inr (scores ! i)" using i by simp
qed

lemma check_answer_loop_Inl:
  "check_answer_loop F ps acc = Inl e \<Longrightarrow> \<exists>(g, t)\<in>set ps. check_answer_score F g t = Inl e"
proof (induction ps arbitrary: acc)
  case Nil
  then show ?case by simp
next
  case (Cons p ps)
  obtain g t where p: "p = (g, t)" by (cases p)
  show ?case
  proof (cases "check_answer_score F g t")
    case (Inl e')
    with Cons.prems p show ?thesis by simp
  next
    case (Inr s)
    with Cons.prems p have "check_answer_loop F ps (acc @ [s]) = Inl e" by simp
    with Cons.IH show ?thesis by fastforce
  qed
qed

lemma check_answer_score_Inl:
  "check_answer_score F guess true_answer = Inl e \<Longrightarrow>
     e = AttributeError \<and> guess \<noteq> None \<and> true_answer = None"
  by (auto simp: check_answer_score_def Let_def split: option.splits if_splits sum.splits)

lemma check_answer_score_le:
  "check_answer_score F guess true_answer = Inr s \<Longrightarrow> s \<le> 3"
  by (auto simp: check_answer_score_def ratio_score_def Let_def
      split: option.splits if_splits sum.splits)

lemma check_numbers_loop_eq:
  "check_numbers_loop F ps acc = acc @ map (\<lambda>(g, t). check_numbers_score F g t) ps"
  by (induction ps arbitrary: acc) auto

lemma check_numbers_Inr:
  assumes "check_numbers F prompts completions answer kargs = (out, Inr scores)"
  shows "scores = map (\<lambda>(g, t). check_numbers_score F g t)
                    (zip (map match_numbers_search completions) answer)"
  using assms
  by (auto simp: check_numbers_def Let_def check_numbers_loop_eq
      split: option.splits list.splits)

lemma check_numbers_nth:
  assumes "check_numbers F prompts completions answer kargs = (out, Inr scores)"
  shows "length scores = min (length completions) (length answer)"
    and "i < length completions \<Longrightarrow> i < length answer \<Longrightarrow>
           scores ! i = check_numbers_score F (match_numbers_search (completions ! i)) (answer ! i)"
  using check_numbers_Inr[OF assms] by simp_all

section \<open>The answer-correctness reward\<close>

lemma check_answer_score_Some:
  "check_answer_score F (Some g) (Some t) =
     (if g = t then Inr 3
      else if py_strip g = py_strip t then Inr (3/2)
      else (case ratio_score F g t 0 of Inl _ \<Rightarrow> Inr (- (1/2)) | Inr s \<Rightarrow> Inr s))"
  by (simp add: check_answer_score_def split: sum.splits)

lemma ratio_score_parsed:
  assumes "float_of_str F g = Some x" and "float_of_str F t = Some y" and "\<not> float_is_zero F y"
  shows "ratio_score F g t 0 =
     Inr (if float_ge F (float_div F x y) (float_lit F (9/10))
             \<and> float_le F (float_div F x y) (float_lit F (11/10)) then 1/2
          else if float_ge F (float_div F x y) (float_lit F (8/10))
             \<and> float_le F (float_div F x y) (float_lit F (12/10)) then 1/4
          else - 1)"
  using assms by (simp add: ratio_score_def py_float_def py_truediv_def)

lemma ratio_score_failed:
  assumes "float_of_str F g = None \<or> float_of_str F t = None
           \<or> (\<exists>y. float_of_str F t = Some y \<and> float_is_zero F y)"
  shows "\<exists>e. ratio_score F g t 0 = Inl e"
proof (cases "float_of_str F g")
  case None
  then show ?thesis by (simp add: ratio_score_def py_float_def)
next
  case (Some x)
  show ?thesis
  proof (cases "float_of_str F t")
    case None
    with Some show ?thesis by (simp add: ratio_score_def py_float_def)
  next
    case (Some y)
    with assms \<open>float_of_str F g = Some x\<close> have "float_is_zero F y" by simp
    with Some \<open>float_of_str F g = Some x\<close> show ?thesis
      by (simp add: ratio_score_def py_float_def py_truediv_def)
  qed
qed

text \<open>
  Claim C3. When the answer \<open>check_answer\<close> extracts from a completion (group 1 of the
  format pattern) equals the ground truth as a string, the score is 3, the largest score
  the function gives; when the two differ but are equal after stripping surrounding
  whitespace, the score is 1.5.
\<close>

theorem check_answer_exact_match:
  assumes "check_answer F prompts completions answer kargs = Inr scores"
    and "i < length completions" and "i < length answer"
    and "match_format_search (completions ! i) = Some guess"
    and "answer ! i = Some true_answer"
  shows "(guess = true_answer \<longrightarrow> scores ! i = 3)
       \<and> (guess \<noteq> true_answer \<and> py_strip guess = py_strip true_answer \<longrightarrow> scores ! i = 3/2)
       \<and> (\<forall>j<length scores. scores ! j \<le> 3)"
proof -
  from check_answer_nth(2)[OF assms(1-3)] assms(4,5)
  have "check_answer_score F (Some guess) (Some true_answer) = Inr (scores ! i)" by simp
  then have a: "(guess = true_answer \<longrightarrow> scores ! i = 3)
       \<and> (guess \<noteq> true_answer \<and> py_strip guess = py_strip true_answer \<longrightarrow> scores ! i = 3/2)"
    by (simp add: check_answer_score_Some split: if_splits)
  have "scores ! j \<le> 3" if "j < length scores" for j
  proof -
    from that check_answer_nth(1)[OF assms(1)]
    have "j < length completions" "j < length answer" by simp_all
    from check_answer_nth(2)[OF assms(1) this] show ?thesis by (rule check_answer_score_le)
  qed
  with a show ?thesis by blast
qed

theorem check_answer_exact_match_witness:
  "check_answer exact_ops ([] :: string list)
     [''<start_working_out>2+2<end_working_out><SOLUTION>4</SOLUTION>'',
      ''<start_working_out>2+2<end_working_out><SOLUTION> 4 </SOLUTION>'']
     [Some ''4'', Some ''4''] Map.empty = Inr [3, 3/2]
   \<and> match_format_search ''<start_working_out>2+2<end_working_out><SOLUTION> 4 </SOLUTION>''
       = Some '' 4 ''
   \<and> py_strip '' 4 '' = py_strip ''4''
   \<and> [3, 3/2 :: rat] ! 1 = 3/2"
proof -
  let ?cs = "[''<start_working_out>2+2<end_working_out><SOLUTION>4</SOLUTION>'',
      ''<start_working_out>2+2<end_working_out><SOLUTION> 4 </SOLUTION>'']"
  have r: "check_answer exact_ops ([] :: string list) ?cs [Some ''4'', Some ''4''] Map.empty
             = Inr [3, 3/2]"
    by code_simp
  have g: "match_format_search (?cs ! 1) = Some '' 4 ''"
    by code_simp
  have s: "py_strip '' 4 '' = py_strip ''4''"
    by code_simp
  from check_answer_exact_match[OF r, of 1 "'' 4 ''" "''4''"] g s
  have "[3, 3/2 :: rat] ! 1 = 3/2" by simp
  with r g s show ?thesis by simp
qed



section \<open>Exceptions\<close>

lemma check_answer_raises:
  assumes "check_answer F prompts completions answer kargs = Inl e"
  shows "e = AttributeError"
proof -
  from assms have "check_answer_loop F (zip (map match_format_search completions) answer) [] = Inl e"
    by (simp add: check_answer_def)
  from check_answer_loop_Inl[OF this] obtain g t where "check_answer_score F g t = Inl e"
    by blast
  then show ?thesis by (simp add: check_answer_score_Inl)
qed

lemma check_answer_score_total:
  assumes "t \<noteq> None"
  shows "\<exists>s. check_answer_score F g t = Inr s"
proof (cases "check_answer_score F g t")
  case (Inl e)
  from check_answer_score_Inl[OF this] assms show ?thesis by simp
next
  case (Inr s)
  then show ?thesis by blast
qed

lemma check_answer_total:
  assumes "\<forall>a\<in>set answer. a \<noteq> None"
  shows "\<exists>scores. check_answer F prompts completions answer kargs = Inr scores"
proof -
  have "\<forall>(g, t)\<in>set (zip (map match_format_search completions) answer).
          \<exists>s. check_answer_score F g t = Inr s"
  proof (clarify)
    fix g t
    assume "(g, t) \<in> set (zip (map match_format_search completions) answer)"
    then have "t \<in> set answer" by (rule set_zip_rightD)
    with assms have "t \<noteq> None" by blast
    then show "\<exists>s. check_answer_score F g t = Inr s" by (rule check_answer_score_total)
  qed
  from check_answer_loop_total[OF this] show ?thesis by (simp add: check_answer_def)
qed

lemma check_numbers_raises:
  "snd (check_numbers F prompts completions answer kargs) = Inl e \<Longrightarrow>
     e = KeyError \<or> e = IndexError"
  by (auto simp: check_numbers_def Let_def split: option.splits list.splits)

lemma check_numbers_score_failed:
  assumes "true_answer = None \<or> (\<exists>t. true_answer = Some t \<and>
             (float_of_str F (py_strip t) = None \<or> float_of_str F (py_strip tok) = None))"
  shows "check_numbers_score F (Some tok) true_answer = 0"
  using assms
  by (auto simp: check_numbers_score_def numbers_equal_score_def py_float_def
      split: option.splits sum.splits)

text \<open>
  Claim C5. Failures of the numeric conversion never leave the reward functions as
  exceptions: neither function raises ValueError or ZeroDivisionError (nor
  \<open>check_numbers\<close> AttributeError). In \<open>check_answer\<close>, when the extracted answer differs
  from the ground truth, also after stripping, and the conversion of either text fails or
  the ground truth converts to zero, the score is -0.5. In \<open>check_numbers\<close>, when the
  conversion of the ground truth or of the extracted token fails (a ground truth \<open>None\<close>
  fails in \<open>strip\<close>, inside the same \<open>try\<close>), the score is 0.
\<close>

theorem parse_failures_are_scored:
  "check_answer F prompts completions answer kargs \<notin> {Inl ValueError, Inl ZeroDivisionError}
   \<and> snd (check_numbers F prompts completions answer kargs)
        \<notin> {Inl ValueError, Inl ZeroDivisionError, Inl AttributeError}
   \<and> (check_answer F prompts completions answer kargs = Inr scores
        \<and> i < length completions \<and> i < length answer
        \<and> match_format_search (completions ! i) = Some guess
        \<and> answer ! i = Some true_answer
        \<and> guess \<noteq> true_answer \<and> py_strip guess \<noteq> py_strip true_answer
        \<and> (float_of_str F guess = None \<or> float_of_str F true_answer = None
             \<or> (\<exists>y. float_of_str F true_answer = Some y \<and> float_is_zero F y))
       \<longrightarrow> scores ! i = - (1/2))
   \<and> (check_numbers F prompts completions answer kargs = (out, Inr scores')
        \<and> j < length completions \<and> j < length answer
        \<and> match_numbers_search (completions ! j) = Some tok
        \<and> (answer ! j = None
             \<or> (\<exists>t. answer ! j = Some t
                   \<and> (float_of_str F (py_strip t) = None \<or> float_of_str F (py_strip tok) = None)))
       \<longrightarrow> scores' ! j = 0)"
proof -
  have a: "check_answer F prompts completions answer kargs
             \<notin> {Inl ValueError, Inl ZeroDivisionError}"
    using check_answer_raises[of F prompts completions answer kargs] by auto
  have b: "snd (check_numbers F prompts completions answer kargs)
        \<notin> {Inl ValueError, Inl ZeroDivisionError, Inl AttributeError}"
    using check_numbers_raises[of F prompts completions answer kargs] by auto
  have c: "scores ! i = - (1/2)"
    if r: "check_answer F prompts completions answer kargs = Inr scores"
      and i: "i < length completions" "i < length answer"
      and g: "match_format_search (completions ! i) = Some guess" "answer ! i = Some true_answer"
      and d: "guess \<noteq> true_answer" "py_strip guess \<noteq> py_strip true_answer"
      and f: "float_of_str F guess = None \<or> float_of_str F true_answer = None
             \<or> (\<exists>y. float_of_str F true_answer = Some y \<and> float_is_zero F y)"
  proof -
    from check_answer_nth(2)[OF r i] g
    have s: "check_answer_score F (Some guess) (Some true_answer) = Inr (scores ! i)" by simp
    from ratio_score_failed[OF f] obtain e where "ratio_score F guess true_answer 0 = Inl e"
      by blast
    with s d show ?thesis by (simp add: check_answer_score_Some)
  qed
  have d: "scores' ! j = 0"
    if r: "check_numbers F prompts completions answer kargs = (out, Inr scores')"
      and j: "j < length completions" "j < length answer"
      and g: "match_numbers_search (completions ! j) = Some tok"
      and f: "answer ! j = None
             \<or> (\<exists>t. answer ! j = Some t
                   \<and> (float_of_str F (py_strip t) = None \<or> float_of_str F (py_strip tok) = None))"
  proof -
    from check_numbers_nth(2)[OF r j] g
    have "scores' ! j = check_numbers_score F (Some tok) (answer ! j)" by simp
    with check_numbers_score_failed[OF f] show ?thesis by simp
  qed
  from a b c d show ?thesis by blast
qed

theorem parse_failures_are_scored_witness:
  "check_answer exact_ops ([] :: string list)
     [''<start_working_out>a<end_working_out><SOLUTION>1.2.3</SOLUTION>'']
     [Some ''10''] [''question'' \<mapsto> [''q'']] = Inr [- (1/2)]
   \<and> snd (check_numbers exact_ops ([] :: string list)
     [''<start_working_out>a<end_working_out><SOLUTION>1.2.3</SOLUTION>'']
     [Some ''10''] [''question'' \<mapsto> [''q'']]) = Inr [0]
   \<and> float_of_str exact_ops ''1.2.3'' = None
   \<and> [- (1/2) :: rat] ! 0 = - (1/2) \<and> [0 :: rat] ! 0 = 0"
proof -
  let ?c = "''<start_working_out>a<end_working_out><SOLUTION>1.2.3</SOLUTION>''"
  let ?out = "[''START ============================'', ''Question: q'', ''Answer: 10'',
          ''Response: <start_working_out>a<end_working_out><SOLUTION>1.2.3</SOLUTION>'',
          ''Extracted: 1.2.3'', ''END =============================='']"
  have r: "check_answer exact_ops ([] :: string list) [?c] [Some ''10'']
             [''question'' \<mapsto> [''q'']] = Inr [- (1/2)]"
    by code_simp
  have n: "check_numbers exact_ops ([] :: string list) [?c] [Some ''10'']
             [''question'' \<mapsto> [''q'']] = (?out, Inr [0])"
    by code_simp
  have g: "match_format_search ([?c] ! 0) = Some ''1.2.3''"
    by code_simp
  have s: "py_strip ''1.2.3'' \<noteq> py_strip ''10''"
    by code_simp
  have x: "float_of_str exact_ops ''1.2.3'' = None"
    by code_simp
  have k: "match_numbers_search ([?c] ! 0) = Some ''1.2.3''"
    by code_simp
  have y: "float_of_str exact_ops (py_strip ''1.2.3'') = None"
    by code_simp
  note t = parse_failures_are_scored[where F = exact_ops and prompts = "[] :: string list"
      and completions = "[?c]" and answer = "[Some ''10'']"
      and kargs = "[''question'' \<mapsto> [''q'']]" and scores = "[- (1/2)]" and i = 0
      and guess = "''1.2.3''" and true_answer = "''10''" and out = ?out and scores' = "[0]"
      and j = 0 and tok = "''1.2.3''"]
  have "[- (1/2) :: rat] ! 0 = - (1/2)"
    using t[THEN conjunct2, THEN conjunct2, THEN conjunct1] r g s x by simp
  moreover have "[0 :: rat] ! 0 = 0"
    using t[THEN conjunct2, THEN conjunct2, THEN conjunct2] n k y by simp
  ultimately show ?thesis using r n x by simp
qed

text \<open>
  Claim C8. \<open>check_answer\<close> raises nothing when every ground-truth answer is a string.
  With a ground truth \<open>None\<close>, which \<open>extract_hash_answer\<close> returns for a text without
  \<open>####\<close>, and a completion in which the format pattern matches, it raises the
  AttributeError of \<open>None.strip()\<close> instead of returning scores.
\<close>

theorem check_answer_total_on_strings:
  "((\<forall>a\<in>set answer. a \<noteq> None) \<longrightarrow>
      (\<exists>scores. check_answer F prompts completions answer kargs = Inr scores))
   \<and> (\<not> py_contains ''####'' text \<longrightarrow> extract_hash_answer text = None)
   \<and> (format_occurs completion \<longrightarrow>
        check_answer F prompts [completion] [None] kargs = Inl AttributeError)
   \<and> check_answer F prompts
        [''<start_working_out>2+2<end_working_out><SOLUTION>5</SOLUTION>'']
        [extract_hash_answer ''The answer is 4''] kargs = Inl AttributeError"
proof -
  have a: "(\<forall>a\<in>set answer. a \<noteq> None) \<longrightarrow>
      (\<exists>scores. check_answer F prompts completions answer kargs = Inr scores)"
    by (rule impI) (rule check_answer_total)
  have b: "\<not> py_contains ''####'' text \<longrightarrow> extract_hash_answer text = None"
    by (simp add: extract_hash_answer_def)
  have c: "check_answer F prompts [c] [None] kargs = Inl AttributeError"
    if "format_occurs c" for c
  proof -
    from that obtain g where "match_format_search c = Some g"
      using match_format_search_iff by blast
    then show ?thesis by (simp add: check_answer_def check_answer_score_def)
  qed
  have fo: "format_occurs ''<start_working_out>2+2<end_working_out><SOLUTION>5</SOLUTION>''"
  proof -
    have "match_format_search ''<start_working_out>2+2<end_working_out><SOLUTION>5</SOLUTION>''
            = Some ''5''"
      by code_simp
    then show ?thesis using match_format_search_iff by blast
  qed
  have eh: "extract_hash_answer ''The answer is 4'' = None"
    by code_simp
  have d: "check_answer F prompts
        [''<start_working_out>2+2<end_working_out><SOLUTION>5</SOLUTION>'']
        [extract_hash_answer ''The answer is 4''] kargs = Inl AttributeError"
    unfolding eh by (rule c[OF fo])
  have c': "format_occurs completion \<longrightarrow>
        check_answer F prompts [completion] [None] kargs = Inl AttributeError"
    by (rule impI) (rule c)
  show ?thesis by (rule conjI[OF a conjI[OF b conjI[OF c' d]]])
qed

theorem check_answer_total_on_strings_witness:
  "(\<exists>scores. check_answer exact_ops ([] :: string list)
        [''<start_working_out>2+2<end_working_out><SOLUTION>5</SOLUTION>''] [Some ''4'']
        Map.empty = Inr scores)
   \<and> extract_hash_answer ''The answer is 4'' = None
   \<and> check_answer exact_ops ([] :: string list)
        [''<start_working_out>2+2<end_working_out><SOLUTION>5</SOLUTION>''] [None]
        Map.empty = Inl AttributeError"
proof -
  let ?c = "''<start_working_out>2+2<end_working_out><SOLUTION>5</SOLUTION>''"
  have p: "\<not> py_contains ''####'' ''The answer is 4''"
    by code_simp
  have f: "format_occurs ?c"
  proof -
    have "match_format_search ?c = Some ''5''" by code_simp
    then show ?thesis using match_format_search_iff by blast
  qed
  have s: "\<forall>a\<in>set [Some ''4'']. a \<noteq> None" by simp
  note t = check_answer_total_on_strings[of "[Some ''4'']" exact_ops "[] :: string list" "[?c]"
      Map.empty "''The answer is 4''" ?c]
  from t[THEN conjunct1] s
  have 1: "\<exists>scores. check_answer exact_ops ([] :: string list) [?c] [Some ''4'']
        Map.empty = Inr scores" by (rule mp)
  from t[THEN conjunct2, THEN conjunct1] p
  have 2: "extract_hash_answer ''The answer is 4'' = None" by (rule mp)
  from t[THEN conjunct2, THEN conjunct2, THEN conjunct1] f
  have 3: "check_answer exact_ops ([] :: string list) [?c] [None]
        Map.empty = Inl AttributeError" by (rule mp)
  show ?thesis by (rule conjI[OF 1 conjI[OF 2 3]])
qed

section \<open>The numeric-correctness reward\<close>

lemma lazy_any_number_group:
  "lazy_any number_group s =
     (let tok = takeWhile is_digit_or_dot (dropWhile (\<lambda>c. \<not> is_digit_or_dot c) s)
      in if tok = [] then None else Some tok)"
proof (induction s)
  case Nil
  then show ?case by (simp add: number_group_def)
next
  case (Cons c cs)
  show ?case
  proof (cases "is_digit_or_dot c")
    case True
    then show ?thesis by (simp add: number_group_def)
  next
    case False
    with Cons show ?thesis by (simp add: number_group_def)
  qed
qed

lemma lazy_any_number_group_None:
  "lazy_any number_group s = None \<longleftrightarrow> (\<forall>c\<in>set s. \<not> is_digit_or_dot c)"
proof (induction s)
  case Nil
  then show ?case by (simp add: number_group_def)
next
  case (Cons c cs)
  show ?case
  proof (cases "is_digit_or_dot c")
    case True
    then show ?thesis by (auto simp: number_group_def)
  next
    case False
    with Cons show ?thesis by (simp add: number_group_def)
  qed
qed

lemma match_numbers_here_eq:
  "match_numbers_here s =
     (if prefix solution_start s then lazy_any number_group (drop (length solution_start) s)
      else None)"
  by (simp add: match_numbers_here_def literal_eq)

lemma match_numbers_search_no_digit:
  "\<forall>c\<in>set s. \<not> is_digit_or_dot c \<Longrightarrow> match_numbers_search s = None"
proof (induction s)
  case Nil
  then show ?case by (simp add: match_numbers_here_eq number_group_def)
next
  case (Cons c cs)
  have "set (drop (length solution_start) (c # cs)) \<subseteq> set (c # cs)"
    by (rule set_drop_subset)
  with Cons.prems have "\<forall>x\<in>set (drop (length solution_start) (c # cs)). \<not> is_digit_or_dot x"
    by blast
  then have "lazy_any number_group (drop (length solution_start) (c # cs)) = None"
    by (simp only: lazy_any_number_group_None)
  then have "match_numbers_here (c # cs) = None"
    by (simp only: match_numbers_here_eq if_cancel)
  moreover from Cons have "match_numbers_search cs = None" by simp
  ultimately show ?case by simp
qed

lemma solution_start_no_digit: "\<forall>c\<in>set solution_start. \<not> is_digit_or_dot c"
  by (simp add: solution_start_def is_digit_or_dot_def)

lemma match_numbers_search_eq: "match_numbers_search s = first_number_token s"
proof (induction s)
  case Nil
  then show ?case
    by (simp add: match_numbers_here_eq first_number_token_def solution_start_def)
next
  case (Cons c cs)
  show ?case
  proof (cases "prefix solution_start (c # cs)")
    case True
    let ?rest = "drop (length solution_start) (c # cs)"
    from True have af: "after_first solution_start (c # cs) = Some ?rest" by simp
    from True have here: "match_numbers_here (c # cs) = lazy_any number_group ?rest"
      by (simp only: match_numbers_here_eq if_True)
    show ?thesis
    proof (cases "lazy_any number_group ?rest")
      case None
      then have nd: "\<forall>x\<in>set ?rest. \<not> is_digit_or_dot x"
        by (simp only: lazy_any_number_group_None)
      from True have "c # cs = solution_start @ ?rest" by (auto simp: prefix_def)
      then have "set cs \<subseteq> set solution_start \<union> set ?rest"
        by (metis set_append set_subset_Cons)
      with nd solution_start_no_digit have "\<forall>x\<in>set cs. \<not> is_digit_or_dot x" by blast
      then have "match_numbers_search cs = None" by (rule match_numbers_search_no_digit)
      with None here have l: "match_numbers_search (c # cs) = None" by simp
      from None have "first_number_token (c # cs) = None"
        unfolding first_number_token_def af lazy_any_number_group by (simp add: Let_def)
      with l show ?thesis by simp
    next
      case (Some tok)
      with here have l: "match_numbers_search (c # cs) = Some tok" by simp
      from Some have "first_number_token (c # cs) = Some tok"
        unfolding first_number_token_def af lazy_any_number_group by (simp add: Let_def)
      with l show ?thesis by simp
    qed
  next
    case False
    then have "match_numbers_here (c # cs) = None"
      by (simp only: match_numbers_here_eq if_False)
    then have l: "match_numbers_search (c # cs) = match_numbers_search cs" by simp
    from False have "after_first solution_start (c # cs) = after_first solution_start cs"
      by simp
    then have "first_number_token (c # cs) = first_number_token cs"
      by (simp only: first_number_token_def)
    with l Cons show ?thesis by simp
  qed
qed

lemma digit_or_dot_not_space: "is_digit_or_dot c \<Longrightarrow> \<not> is_space c"
  by (auto simp: is_digit_or_dot_def is_space_def)

lemma dropWhile_none: "\<forall>x\<in>set xs. \<not> P x \<Longrightarrow> dropWhile P xs = xs"
  by (cases xs) simp_all

lemma py_strip_token:
  assumes "\<forall>c\<in>set tok. is_digit_or_dot c"
  shows "py_strip tok = tok"
proof -
  from assms have n: "\<forall>c\<in>set tok. \<not> is_space c" using digit_or_dot_not_space by blast
  then have "\<forall>c\<in>set (rev tok). \<not> is_space c" by simp
  with n show ?thesis by (simp add: py_strip_def dropWhile_none)
qed

lemma first_number_token_chars:
  assumes "first_number_token s = Some tok"
  shows "tok \<noteq> [] \<and> (\<forall>c\<in>set tok. is_digit_or_dot c)"
proof -
  from assms obtain rest where
    "tok = takeWhile is_digit_or_dot (dropWhile (\<lambda>c. \<not> is_digit_or_dot c) rest)" "tok \<noteq> []"
    by (auto simp: first_number_token_def Let_def split: option.splits if_splits)
  then show ?thesis by (auto dest: set_takeWhileD)
qed

text \<open>\<open>after_first\<close> returns the text after the leftmost occurrence, and \<open>None\<close> exactly
  when there is no occurrence.\<close>

lemma after_first_Some:
  assumes "after_first sub s = Some rest"
  shows "\<exists>pre. s = pre @ sub @ rest \<and> (\<forall>i<length pre. \<not> prefix sub (drop i s))"
  using assms
proof (induction s)
  case Nil
  then show ?case by (simp split: if_splits)
next
  case (Cons c cs)
  show ?case
  proof (cases "prefix sub (c # cs)")
    case True
    with Cons.prems have "rest = drop (length sub) (c # cs)" by simp
    with True have "c # cs = [] @ sub @ rest" by (auto simp: prefix_def)
    then show ?thesis by (metis length_0_conv less_nat_zero_code list.size(3))
  next
    case False
    with Cons.prems have "after_first sub cs = Some rest" by simp
    with Cons.IH obtain pre where pre: "cs = pre @ sub @ rest"
      "\<forall>i<length pre. \<not> prefix sub (drop i cs)" by blast
    have "\<not> prefix sub (drop i (c # cs))" if "i < length (c # pre)" for i
      using that False pre(2) by (cases i) auto
    with pre(1) have "c # cs = (c # pre) @ sub @ rest
        \<and> (\<forall>i<length (c # pre). \<not> prefix sub (drop i (c # cs)))" by simp
    then show ?thesis by blast
  qed
qed

lemma after_first_None:
  "after_first sub s = None \<longleftrightarrow> (\<forall>i\<le>length s. \<not> prefix sub (drop i s))"
proof (induction s)
  case Nil
  then show ?case by auto
next
  case (Cons c cs)
  show ?case
  proof (cases "prefix sub (c # cs)")
    case True
    then have "after_first sub (c # cs) \<noteq> None" by simp
    moreover from True have "\<not> (\<forall>i\<le>length (c # cs). \<not> prefix sub (drop i (c # cs)))"
      by (metis drop0 le0)
    ultimately show ?thesis by blast
  next
    case False
    have "(\<forall>i\<le>length (c # cs). \<not> prefix sub (drop i (c # cs)))
            \<longleftrightarrow> (\<forall>i\<le>length cs. \<not> prefix sub (drop i cs))"
    proof
      assume a: "\<forall>i\<le>length (c # cs). \<not> prefix sub (drop i (c # cs))"
      show "\<forall>i\<le>length cs. \<not> prefix sub (drop i cs)"
      proof (intro allI impI)
        fix i assume "i \<le> length cs"
        then have "Suc i \<le> length (c # cs)" by simp
        with a have "\<not> prefix sub (drop (Suc i) (c # cs))" by blast
        then show "\<not> prefix sub (drop i cs)" by simp
      qed
    next
      assume a: "\<forall>i\<le>length cs. \<not> prefix sub (drop i cs)"
      show "\<forall>i\<le>length (c # cs). \<not> prefix sub (drop i (c # cs))"
      proof (intro allI impI)
        fix i assume "i \<le> length (c # cs)"
        then show "\<not> prefix sub (drop i (c # cs))"
          using False a by (cases i) auto
      qed
    qed
    with False Cons.IH show ?thesis by simp
  qed
qed

text \<open>
  Claim C7. What \<open>check_numbers\<close> extracts from a completion is the first maximal run of
  digits and dots after the first solution-start marker. When there is no marker or no
  such run the score is 0. When the run and the stripped ground truth both convert to
  numbers the score is 1.5 if the two are equal under the float comparison and 0
  otherwise.
\<close>

theorem check_numbers_first_token:
  assumes "check_numbers F prompts completions answer kargs = (out, Inr scores)"
    and "i < length completions" and "i < length answer"
  shows "match_numbers_search (completions ! i) = first_number_token (completions ! i)
       \<and> (first_number_token (completions ! i) = None \<longrightarrow> scores ! i = 0)
       \<and> (\<forall>tok t x y.
             first_number_token (completions ! i) = Some tok \<and> answer ! i = Some t
             \<and> float_of_str F tok = Some x \<and> float_of_str F (py_strip t) = Some y
            \<longrightarrow> scores ! i = (if float_eq F x y then 3/2 else 0))"
proof -
  note s = check_numbers_nth(2)[OF assms]
  have a: "first_number_token (completions ! i) = None \<longrightarrow> scores ! i = 0"
    using s by (simp add: match_numbers_search_eq check_numbers_score_def)
  have b: "scores ! i = (if float_eq F x y then 3/2 else 0)"
    if "first_number_token (completions ! i) = Some tok \<and> answer ! i = Some t
             \<and> float_of_str F tok = Some x \<and> float_of_str F (py_strip t) = Some y"
    for tok t x y
  proof -
    from that first_number_token_chars[of "completions ! i" tok]
    have "py_strip tok = tok" by (simp add: py_strip_token)
    with that s show ?thesis
      by (simp add: match_numbers_search_eq check_numbers_score_def numbers_equal_score_def
          py_float_def)
  qed
  from a b match_numbers_search_eq[of "completions ! i"] show ?thesis by blast
qed

theorem check_numbers_first_token_witness:
  "snd (check_numbers exact_ops ([] :: string list)
     [''<start_working_out>a<end_working_out><SOLUTION>The answer is 10.0 maybe</SOLUTION>'',
      ''<SOLUTION>none'']
     [Some ''10 '', Some ''10''] [''question'' \<mapsto> [''q'']]) = Inr [3/2, 0]
   \<and> first_number_token
       ''<start_working_out>a<end_working_out><SOLUTION>The answer is 10.0 maybe</SOLUTION>''
       = Some ''10.0''
   \<and> first_number_token ''<SOLUTION>none'' = None"
proof -
  let ?cs = "[''<start_working_out>a<end_working_out><SOLUTION>The answer is 10.0 maybe</SOLUTION>'',
      ''<SOLUTION>none'']"
  let ?out = "[''START ============================'', ''Question: q'', ''Answer: 10 '',
      ''Response: <start_working_out>a<end_working_out><SOLUTION>The answer is 10.0 maybe</SOLUTION>'',
      ''Extracted: 10.0'', ''END =============================='']"
  have n: "check_numbers exact_ops ([] :: string list) ?cs [Some ''10 '', Some ''10'']
             [''question'' \<mapsto> [''q'']] = (?out, Inr [3/2, 0])"
    by code_simp
  have k0: "match_numbers_search (?cs ! 0) = Some ''10.0''"
    by code_simp
  have k1: "match_numbers_search (?cs ! 1) = None"
    by code_simp
  have x: "float_of_str exact_ops ''10.0'' = Some 10"
    by code_simp
  have y: "float_of_str exact_ops (py_strip ''10 '') = Some 10"
    by code_simp
  note t0 = check_numbers_first_token[OF n, of 0]
  note t1 = check_numbers_first_token[OF n, of 1]
  from t0 k0 have f0: "first_number_token (?cs ! 0) = Some ''10.0''" by simp
  from t1 k1 have f1: "first_number_token (?cs ! 1) = None" by simp
  from t1 f1 have "[3/2, 0 :: rat] ! 1 = 0" by simp
  from t0 f0 x y have "[3/2, 0 :: rat] ! 0 = (if float_eq exact_ops 10 10 then 3/2 else 0)"
    by simp
  from n f0 f1 show ?thesis by simp
qed

section \<open>Batches and arguments\<close>

lemma match_format_approximately_eq:
  "match_format_approximately prompts cs kargs =
     map (\<lambda>c. \<Sum>m\<leftarrow>markers. if occurs_once m c then 1/2 else - (1/2)) cs"
  by (simp add: match_format_approximately_def match_format_approximately_loop_eq)

lemma check_answer_singleton:
  assumes "check_answer F prompts completions answer kargs = Inr scores"
    and "i < length completions" and "i < length answer"
  shows "check_answer F prompts' [completions ! i] [answer ! i] kargs' = Inr [scores ! i]"
  using check_answer_nth(2)[OF assms] by (simp add: check_answer_def)

lemma check_numbers_returns:
  assumes "kargs ''question'' = Some (q # qs)" and "completions \<noteq> []" and "answer \<noteq> []"
  shows "\<exists>out. check_numbers F prompts completions answer kargs =
           (out, Inr (map (\<lambda>(g, t). check_numbers_score F g t)
                       (zip (map match_numbers_search completions) answer)))"
proof -
  from assms(2) obtain c cs where c: "completions = c # cs" by (cases completions) auto
  from assms(3) obtain a as where a: "answer = a # as" by (cases answer) auto
  show ?thesis
    unfolding check_numbers_def c a using assms(1)
    by (simp add: Let_def check_numbers_loop_eq)
qed

text \<open>
  Claim C9, as stated, fails for \<open>check_numbers\<close>: the function prints the first
  question, answer and response before scoring. On the empty batch \<open>answer[0]\<close> raises
  IndexError, and on a batch of one with an empty \<open>question\<close> list \<open>question[0]\<close> does,
  so no list of scores is returned.
\<close>

theorem check_numbers_empty_batch_raises:
  "check_numbers exact_ops ([] :: string list) [] [] [''question'' \<mapsto> [''q'']]
     = ([''START ============================'', ''Question: q''], Inl IndexError)
   \<and> check_numbers exact_ops ([] :: string list) [''<SOLUTION>1''] [Some ''1'']
       [''question'' \<mapsto> []]
     = ([''START ============================''], Inl IndexError)"
  by code_simp

text \<open>
  Claim C9, amended. Each reward function returns one score per completion, in the order
  of the input, and the score at a position is the score the function gives to that
  completion (and that ground truth) alone: the two format rewards for every batch,
  \<open>check_answer\<close> when the answers are as many as the completions and all strings,
  \<open>check_numbers\<close> when the answers are as many as the completions, the batch is not
  empty and the \<open>question\<close> keyword argument is a non-empty list.
\<close>

theorem rewards_are_pointwise:
  "length (match_format_exactly prompts completions kargs) = length completions
   \<and> (\<forall>i<length completions.
         match_format_exactly prompts completions kargs ! i
           = match_format_exactly prompts [completions ! i] kargs ! 0)
   \<and> length (match_format_approximately prompts completions kargs) = length completions
   \<and> (\<forall>i<length completions.
         match_format_approximately prompts completions kargs ! i
           = match_format_approximately prompts [completions ! i] kargs ! 0)
   \<and> (length answer = length completions \<and> (\<forall>a\<in>set answer. a \<noteq> None) \<longrightarrow>
        (\<exists>scores. check_answer F prompts completions answer kargs = Inr scores
           \<and> length scores = length completions
           \<and> (\<forall>i<length completions.
                 check_answer F prompts [completions ! i] [answer ! i] kargs
                   = Inr [scores ! i])))
   \<and> (length answer = length completions \<and> completions \<noteq> []
        \<and> (\<exists>q qs. kargs ''question'' = Some (q # qs)) \<longrightarrow>
        (\<exists>out scores. check_numbers F prompts completions answer kargs = (out, Inr scores)
           \<and> length scores = length completions
           \<and> (\<forall>i<length completions.
                 snd (check_numbers F prompts [completions ! i] [answer ! i] kargs)
                   = Inr [scores ! i])))"
proof -
  have e: "length (match_format_exactly prompts completions kargs) = length completions
   \<and> (\<forall>i<length completions.
         match_format_exactly prompts completions kargs ! i
           = match_format_exactly prompts [completions ! i] kargs ! 0)"
    by (simp add: match_format_exactly_eq)
  have p: "length (match_format_approximately prompts completions kargs) = length completions
   \<and> (\<forall>i<length completions.
         match_format_approximately prompts completions kargs ! i
           = match_format_approximately prompts [completions ! i] kargs ! 0)"
    by (simp add: match_format_approximately_eq)
  have a: "\<exists>scores. check_answer F prompts completions answer kargs = Inr scores
           \<and> length scores = length completions
           \<and> (\<forall>i<length completions.
                 check_answer F prompts [completions ! i] [answer ! i] kargs
                   = Inr [scores ! i])"
    if h: "length answer = length completions \<and> (\<forall>a\<in>set answer. a \<noteq> None)"
  proof -
    from h check_answer_total[of answer F prompts completions kargs]
    obtain scores where s: "check_answer F prompts completions answer kargs = Inr scores"
      by blast
    from check_answer_nth(1)[OF s] h have l: "length scores = length completions" by simp
    have "\<forall>i<length completions.
            check_answer F prompts [completions ! i] [answer ! i] kargs = Inr [scores ! i]"
      using check_answer_singleton[OF s, where prompts' = prompts and kargs' = kargs] h
      by simp
    with s l show ?thesis by blast
  qed
  have n: "\<exists>out scores. check_numbers F prompts completions answer kargs = (out, Inr scores)
           \<and> length scores = length completions
           \<and> (\<forall>i<length completions.
                 snd (check_numbers F prompts [completions ! i] [answer ! i] kargs)
                   = Inr [scores ! i])"
    if h: "length answer = length completions \<and> completions \<noteq> []
        \<and> (\<exists>q qs. kargs ''question'' = Some (q # qs))"
  proof -
    from h obtain q qs where q: "kargs ''question'' = Some (q # qs)" by blast
    from h have ne: "completions \<noteq> []" "answer \<noteq> []" by auto
    let ?scores = "map (\<lambda>(g, t). check_numbers_score F g t)
                       (zip (map match_numbers_search completions) answer)"
    from check_numbers_returns[where kargs = kargs and F = F and prompts = prompts, OF q ne]
    obtain out where
      r: "check_numbers F prompts completions answer kargs = (out, Inr ?scores)" by blast
    from h have l: "length ?scores = length completions" by simp
    have "snd (check_numbers F prompts [completions ! i] [answer ! i] kargs) = Inr [?scores ! i]"
      if "i < length completions" for i
    proof -
      from check_numbers_returns[where kargs = kargs and completions = "[completions ! i]"
          and answer = "[answer ! i]" and F = F and prompts = prompts, OF q]
      obtain out' where "check_numbers F prompts [completions ! i] [answer ! i] kargs =
           (out', Inr [check_numbers_score F (match_numbers_search (completions ! i)) (answer ! i)])"
        by auto
      with that h show ?thesis by simp
    qed
    with r l show ?thesis by blast
  qed
  show ?thesis
    by (intro conjI impI) (use e p a n in \<open>blast+\<close>)
qed

theorem rewards_are_pointwise_witness:
  "check_answer exact_ops ([] :: string list)
        [''<start_working_out>a<end_working_out><SOLUTION>10</SOLUTION>'', ''<SOLUTION>7'']
        [Some ''10'', Some ''7''] [''question'' \<mapsto> [''q1'', ''q2'']] = Inr [3, 0]
   \<and> check_answer exact_ops ([] :: string list) [''<SOLUTION>7''] [Some ''7'']
        [''question'' \<mapsto> [''q1'', ''q2'']] = Inr [0]
   \<and> snd (check_numbers exact_ops ([] :: string list)
        [''<start_working_out>a<end_working_out><SOLUTION>10</SOLUTION>'', ''<SOLUTION>7'']
        [Some ''10'', Some ''7''] [''question'' \<mapsto> [''q1'', ''q2'']]) = Inr [3/2, 3/2]
   \<and> snd (check_numbers exact_ops ([] :: string list) [''<SOLUTION>7''] [Some ''7'']
        [''question'' \<mapsto> [''q1'', ''q2'']]) = Inr [3/2]"
proof -
  let ?cs = "[''<start_working_out>a<end_working_out><SOLUTION>10</SOLUTION>'', ''<SOLUTION>7'']"
  let ?as = "[Some ''10'', Some ''7'']"
  let ?k = "[''question'' \<mapsto> [''q1'', ''q2'']]"
  note t = rewards_are_pointwise[where F = exact_ops and prompts = "[] :: string list"
      and completions = ?cs and answer = ?as and kargs = ?k]
  have h1: "length ?as = length ?cs \<and> (\<forall>a\<in>set ?as. a \<noteq> None)"
    by simp
  have h2: "length ?as = length ?cs \<and> ?cs \<noteq> [] \<and> (\<exists>q qs. ?k ''question'' = Some (q # qs))"
    by simp
  have ca: "check_answer exact_ops ([] :: string list) ?cs ?as ?k = Inr [3, 0]"
    by code_simp
  have cn: "snd (check_numbers exact_ops ([] :: string list) ?cs ?as ?k) = Inr [3/2, 3/2]"
    by code_simp
  from mp[OF t[THEN conjunct2, THEN conjunct2, THEN conjunct2, THEN conjunct2,
          THEN conjunct1] h1]
  obtain scores where
    s1: "check_answer exact_ops ([] :: string list) ?cs ?as ?k = Inr scores" and
    s2: "\<forall>i<length ?cs. check_answer exact_ops ([] :: string list) [?cs ! i] [?as ! i] ?k
                      = Inr [scores ! i]"
    by blast
  from s1 ca have e1: "scores = [3, 0]" by simp
  from s2 have "1 < length ?cs \<longrightarrow>
      check_answer exact_ops ([] :: string list) [?cs ! 1] [?as ! 1] ?k = Inr [scores ! 1]"
    by (rule spec)
  with e1 have a1: "check_answer exact_ops ([] :: string list) [''<SOLUTION>7''] [Some ''7''] ?k
                      = Inr [0]"
    by simp
  from mp[OF t[THEN conjunct2, THEN conjunct2, THEN conjunct2, THEN conjunct2,
          THEN conjunct2] h2]
  obtain out scores' where
    n1: "check_numbers exact_ops ([] :: string list) ?cs ?as ?k = (out, Inr scores')" and
    n2: "\<forall>i<length ?cs. snd (check_numbers exact_ops ([] :: string list) [?cs ! i] [?as ! i] ?k)
                      = Inr [scores' ! i]"
    by blast
  from n1 cn have e2: "scores' = [3/2, 3/2]" by simp
  from n2 have "1 < length ?cs \<longrightarrow>
      snd (check_numbers exact_ops ([] :: string list) [?cs ! 1] [?as ! 1] ?k)
        = Inr [scores' ! 1]"
    by (rule spec)
  with e2 have b1: "snd (check_numbers exact_ops ([] :: string list) [''<SOLUTION>7'']
                      [Some ''7''] ?k) = Inr [3/2]"
    by simp
  from ca cn a1 b1 show ?thesis by simp
qed

lemma check_numbers_snd:
  assumes "kargs ''question'' = Some (q # qs)"
  shows "snd (check_numbers F prompts completions answer kargs) =
           (if answer = [] \<or> completions = [] then Inl IndexError
            else Inr (map (\<lambda>(g, t). check_numbers_score F g t)
                       (zip (map match_numbers_search completions) answer)))"
  unfolding check_numbers_def using assms
  by (simp add: Let_def check_numbers_loop_eq split: list.splits)

text \<open>
  Claim C10, as stated, fails for \<open>check_numbers\<close>: two calls that both supply a
  \<open>question\<close> keyword argument and agree on completions and answers differ when one
  \<open>question\<close> is the empty list, since \<open>question[0]\<close> then raises IndexError.
\<close>

theorem check_numbers_empty_question_differs:
  "snd (check_numbers exact_ops ([] :: string list) [''<SOLUTION>1''] [Some ''1'']
          [''question'' \<mapsto> []]) = Inl IndexError
   \<and> snd (check_numbers exact_ops ([] :: string list) [''<SOLUTION>1''] [Some ''1'']
          [''question'' \<mapsto> [''q'']]) = Inr [3/2]"
  by code_simp

text \<open>
  Claim C10, amended. Two calls of \<open>match_format_exactly\<close>, of
  \<open>match_format_approximately\<close> or of \<open>check_answer\<close> that agree on the completions (and
  on the answers) give the same result whatever the prompts and the keyword arguments.
  The same holds for the scores or the exception of \<open>check_numbers\<close> when both calls
  supply a non-empty \<open>question\<close> list; without a \<open>question\<close> the call raises KeyError.
\<close>

theorem rewards_ignore_prompts_and_kwargs:
  "match_format_exactly prompts completions kargs
     = match_format_exactly prompts' completions kargs'
   \<and> match_format_approximately prompts completions kargs
     = match_format_approximately prompts' completions kargs'
   \<and> check_answer F prompts completions answer kargs
     = check_answer F prompts' completions answer kargs'
   \<and> ((\<exists>q qs. kargs ''question'' = Some (q # qs)) \<and> (\<exists>q qs. kargs' ''question'' = Some (q # qs))
        \<longrightarrow> snd (check_numbers F prompts completions answer kargs)
             = snd (check_numbers F prompts' completions answer kargs'))
   \<and> (kargs ''question'' = None \<longrightarrow>
        snd (check_numbers F prompts completions answer kargs) = Inl KeyError)"
proof -
  have e: "match_format_exactly prompts completions kargs
     = match_format_exactly prompts' completions kargs'"
    by (simp add: match_format_exactly_def)
  have p: "match_format_approximately prompts completions kargs
     = match_format_approximately prompts' completions kargs'"
    by (simp add: match_format_approximately_def)
  have a: "check_answer F prompts completions answer kargs
     = check_answer F prompts' completions answer kargs'"
    by (simp add: check_answer_def)
  have n: "snd (check_numbers F prompts completions answer kargs)
             = snd (check_numbers F prompts' completions answer kargs')"
    if "(\<exists>q qs. kargs ''question'' = Some (q # qs)) \<and> (\<exists>q qs. kargs' ''question'' = Some (q # qs))"
  proof -
    from that obtain q qs q' qs' where
      "kargs ''question'' = Some (q # qs)" "kargs' ''question'' = Some (q' # qs')" by blast
    then show ?thesis by (simp only: check_numbers_snd)
  qed
  have k: "snd (check_numbers F prompts completions answer kargs) = Inl KeyError"
    if "kargs ''question'' = None"
    using that by (simp add: check_numbers_def)
  from e p a n k show ?thesis by (intro conjI impI)
qed

theorem rewards_ignore_prompts_and_kwargs_witness:
  "snd (check_numbers exact_ops [''p1''] [''<SOLUTION>1''] [Some ''1'']
          [''question'' \<mapsto> [''q1'']])
   = snd (check_numbers exact_ops [(2 :: nat)] [''<SOLUTION>1''] [Some ''1'']
          [''question'' \<mapsto> [''q2''], ''extra'' \<mapsto> []])
   \<and> check_answer exact_ops [''p1''] [''<SOLUTION>1''] [Some ''1'']
          [''question'' \<mapsto> [''q1'']]
     = check_answer exact_ops [(2 :: nat)] [''<SOLUTION>1''] [Some ''1'']
          [''question'' \<mapsto> [''q2''], ''extra'' \<mapsto> []]
   \<and> snd (check_numbers exact_ops [''p1''] [''<SOLUTION>1''] [Some ''1''] Map.empty)
       = Inl KeyError"
proof -
  let ?k = "[''question'' \<mapsto> [''q1'']]"
  let ?k' = "[''question'' \<mapsto> [''q2''], ''extra'' \<mapsto> []]"
  note t = rewards_ignore_prompts_and_kwargs[where F = exact_ops
      and prompts = "[''p1'']" and prompts' = "[2 :: nat]"
      and completions = "[''<SOLUTION>1'']" and answer = "[Some ''1'']"
      and kargs = ?k and kargs' = ?k']
  note u = rewards_ignore_prompts_and_kwargs[where F = exact_ops
      and prompts = "[''p1'']" and prompts' = "[2 :: nat]"
      and completions = "[''<SOLUTION>1'']" and answer = "[Some ''1'']"
      and kargs = Map.empty and kargs' = ?k']
  have h: "(\<exists>q qs. ?k ''question'' = Some (q # qs)) \<and> (\<exists>q qs. ?k' ''question'' = Some (q # qs))"
    by simp
  have g: "(Map.empty :: kwargs) ''question'' = None"
    by simp
  note n = mp[OF t[THEN conjunct2, THEN conjunct2, THEN conjunct2, THEN conjunct1] h]
  note a = t[THEN conjunct2, THEN conjunct2, THEN conjunct1]
  note e = mp[OF u[THEN conjunct2, THEN conjunct2, THEN conjunct2, THEN conjunct2] g]
  show ?thesis by (rule conjI[OF n conjI[OF a e]])
qed

section \<open>Rounding to binary64\<close>

lemma pow2n_power: "0 \<le> k \<Longrightarrow> pow2n k = 2 ^ nat k"
proof (induction k rule: pow2n.induct)
  case (1 k)
  show ?case
  proof (cases "k \<le> 0")
    case True
    then show ?thesis using 1(2) by (subst pow2n.simps) simp
  next
    case False
    with 1 have "pow2n (k - 1) = 2 ^ nat (k - 1)" by simp
    moreover from False have "nat k = Suc (nat (k - 1))" by simp
    ultimately show ?thesis using False by (subst pow2n.simps) simp
  qed
qed

lemma pow2_powi: "pow2 k = 2 powi k"
proof (cases "0 \<le> k")
  case True
  then show ?thesis by (simp add: pow2_def pow2n_power power_int_def)
next
  case False
  then show ?thesis
    by (simp add: pow2_def pow2n_power power_int_def inverse_eq_divide power_one_over)
qed

lemma pow2_pos: "0 < pow2 k"
  by (simp add: pow2_powi)

lemma pow2_add: "pow2 (i + j) = pow2 i * pow2 j"
  by (simp add: pow2_powi power_int_add)

lemma pow2_mono: "i \<le> j \<Longrightarrow> pow2 i \<le> pow2 j"
  by (simp add: pow2_powi power_int_increasing)

lemma pow2_strict_mono: "i < j \<Longrightarrow> pow2 i < pow2 j"
  by (simp add: pow2_powi power_int_strict_increasing)

lemma pow2_of_int: "0 \<le> k \<Longrightarrow> pow2 k = of_int (2 ^ nat k)"
  by (simp add: pow2_def pow2n_power)

lemma ilog2_nonneg: "0 \<le> ilog2 n"
proof (induction n rule: ilog2.induct)
  case (1 n)
  then show ?case by (subst ilog2.simps) simp
qed

lemma ilog2_bounds:
  "1 \<le> n \<Longrightarrow> 2 ^ nat (ilog2 n) \<le> n \<and> n < 2 ^ nat (ilog2 n + 1)"
proof (induction n rule: ilog2.induct)
  case (1 n)
  show ?case
  proof (cases "n \<le> 1")
    case True
    with 1(2) have "n = 1" by simp
    then show ?thesis by (subst ilog2.simps, subst ilog2.simps) simp
  next
    case False
    then have h: "1 \<le> n div 2" by simp
    from 1(1)[OF False h]
    have b: "2 ^ nat (ilog2 (n div 2)) \<le> n div 2" "n div 2 < 2 ^ nat (ilog2 (n div 2) + 1)"
      by simp_all
    have e: "ilog2 n = 1 + ilog2 (n div 2)" using False by (subst ilog2.simps) simp
    have s1: "nat (ilog2 n) = Suc (nat (ilog2 (n div 2)))"
      using ilog2_nonneg[of "n div 2"] by (simp add: e)
    have s2: "nat (ilog2 n + 1) = Suc (nat (ilog2 (n div 2) + 1))"
      using ilog2_nonneg[of "n div 2"] by (simp add: e)
    from b(1) have "2 * 2 ^ nat (ilog2 (n div 2)) \<le> n" by linarith
    moreover from b(2) have "n < 2 * 2 ^ nat (ilog2 (n div 2) + 1)" by linarith
    ultimately show ?thesis by (simp only: s1 s2 power_Suc)
  qed
qed

lemma ilog2_pow2:
  assumes "1 \<le> n"
  shows "pow2 (ilog2 n) \<le> of_int n" and "of_int n < pow2 (ilog2 n + 1)"
proof -
  from ilog2_bounds[OF assms]
  have a: "(2::int) ^ nat (ilog2 n) \<le> n" and b: "n < 2 ^ nat (ilog2 n + 1)" by simp_all
  from a have "(of_int (2 ^ nat (ilog2 n)) :: rat) \<le> of_int n" by (simp only: of_int_le_iff)
  then show "pow2 (ilog2 n) \<le> of_int n" using ilog2_nonneg[of n] by (simp add: pow2_of_int)
  from b have "(of_int n :: rat) < of_int (2 ^ nat (ilog2 n + 1))" by (simp only: of_int_less_iff)
  then show "of_int n < pow2 (ilog2 n + 1)" using ilog2_nonneg[of n] by (simp add: pow2_of_int)
qed

lemma log2_floor_bounds:
  assumes "0 < a"
  shows "pow2 (log2_floor a) \<le> a" and "a < pow2 (log2_floor a + 1)"
proof -
  obtain p q where pq: "quotient_of a = (p, q)" by (cases "quotient_of a")
  then have q: "0 < q" by (rule quotient_of_denom_pos)
  from pq have a: "a = of_int p / of_int q" by (rule quotient_of_div)
  with assms q have p: "0 < p" by (simp add: zero_less_divide_iff)
  let ?e = "ilog2 p - ilog2 q"
  from p q have p1: "1 \<le> p" and q1: "1 \<le> q" by simp_all
  note bp = ilog2_pow2[OF p1] and bq = ilog2_pow2[OF q1]
  have qpos: "(0::rat) < of_int q" using q by simp
  have up: "a < pow2 (?e + 1)"
  proof -
    have "of_int p < pow2 (ilog2 p + 1)" by (rule bp(2))
    also have "\<dots> = pow2 (?e + 1) * pow2 (ilog2 q)" by (simp add: pow2_add[symmetric])
    also have "\<dots> \<le> pow2 (?e + 1) * of_int q"
      using bq(1) pow2_pos[of "?e + 1"] by (simp add: mult_left_mono)
    finally show ?thesis using qpos by (simp add: a pos_divide_less_eq)
  qed
  have lo: "pow2 (?e - 1) \<le> a"
  proof -
    have "pow2 (?e - 1) * of_int q \<le> pow2 (?e - 1) * pow2 (ilog2 q + 1)"
      using bq(2) pow2_pos[of "?e - 1"] by (simp add: mult_left_mono)
    also have "\<dots> = pow2 (ilog2 p)" by (simp add: pow2_add[symmetric])
    also have "\<dots> \<le> of_int p" by (rule bp(1))
    finally show ?thesis using qpos by (simp add: a pos_le_divide_eq)
  qed
  have l: "log2_floor a = (if pow2 ?e \<le> a then ?e else ?e - 1)"
    by (simp add: log2_floor_def pq)
  show "pow2 (log2_floor a) \<le> a" using lo by (simp add: l)
  show "a < pow2 (log2_floor a + 1)" using up by (auto simp: l)
qed

lemma log2_floor_mono:
  assumes "0 < a" and "a \<le> b"
  shows "log2_floor a \<le> log2_floor b"
proof (rule ccontr)
  assume "\<not> log2_floor a \<le> log2_floor b"
  then have "log2_floor b + 1 \<le> log2_floor a" by simp
  then have "pow2 (log2_floor b + 1) \<le> pow2 (log2_floor a)" by (rule pow2_mono)
  also have "\<dots> \<le> a" using assms(1) by (rule log2_floor_bounds)
  finally have "pow2 (log2_floor b + 1) \<le> b" using assms(2) by simp
  moreover from assms have "b < pow2 (log2_floor b + 1)" by (intro log2_floor_bounds) simp
  ultimately show False by simp
qed

lemma round_half_even_of_int: "round_half_even (of_int k) = k"
  by (simp add: round_half_even_def)

lemma round_half_even_between:
  "of_int \<lfloor>m\<rfloor> \<le> (of_int (round_half_even m) :: rat)
   \<and> round_half_even m \<le> \<lfloor>m\<rfloor> + 1"
  by (simp add: round_half_even_def Let_def)

lemma round_half_even_mono:
  assumes "m \<le> m'"
  shows "round_half_even m \<le> round_half_even m'"
proof -
  from assms have f: "\<lfloor>m\<rfloor> \<le> \<lfloor>m'\<rfloor>" by (rule floor_mono)
  show ?thesis
  proof (cases "\<lfloor>m\<rfloor> = \<lfloor>m'\<rfloor>")
    case True
    with assms have "m - of_int \<lfloor>m\<rfloor> \<le> m' - of_int \<lfloor>m'\<rfloor>" by simp
    with True show ?thesis by (auto simp: round_half_even_def Let_def)
  next
    case False
    with f have "\<lfloor>m\<rfloor> + 1 \<le> \<lfloor>m'\<rfloor>" by simp
    moreover have "round_half_even m \<le> \<lfloor>m\<rfloor> + 1"
      using round_half_even_between[of m] by simp
    moreover have "\<lfloor>m'\<rfloor> \<le> round_half_even m'"
      using round_half_even_between[of m'] by simp
    ultimately show ?thesis by linarith
  qed
qed

lemma round_half_even_le: "m \<le> of_int k \<Longrightarrow> round_half_even m \<le> k"
  using round_half_even_mono[of m "of_int k"] by (simp add: round_half_even_of_int)

lemma round_half_even_ge: "of_int k \<le> m \<Longrightarrow> k \<le> round_half_even m"
  using round_half_even_mono[of "of_int k" m] by (simp add: round_half_even_of_int)

lemma float_exponent_mono:
  "0 < a \<Longrightarrow> a \<le> b \<Longrightarrow> float_exponent a \<le> float_exponent b"
  using log2_floor_mono[of a b] by (simp add: float_exponent_def)

lemma float_exponent_upper:
  assumes "0 < a"
  shows "a < pow2 (float_exponent a + 1)"
proof -
  have "a < pow2 (log2_floor a + 1)" using assms by (rule log2_floor_bounds)
  also have "\<dots> \<le> pow2 (float_exponent a + 1)"
    by (rule pow2_mono) (simp add: float_exponent_def)
  finally show ?thesis .
qed

lemma float_significand_upper:
  assumes "0 < a"
  shows "float_significand a \<le> 9007199254740992"
proof -
  let ?e = "float_exponent a"
  have "pow2 (?e + 1) = pow2 53 * pow2 (?e - 52)" by (simp add: pow2_add[symmetric] add.commute)
  with float_exponent_upper[OF assms] have "a < pow2 53 * pow2 (?e - 52)" by simp
  then have "a / pow2 (?e - 52) < pow2 53" using pow2_pos[of "?e - 52"]
    by (simp add: pos_divide_less_eq)
  also have "pow2 53 = of_int 9007199254740992" by (simp add: pow2_of_int)
  finally have "a / pow2 (?e - 52) \<le> of_int 9007199254740992" by simp
  then show ?thesis unfolding float_significand_def by (rule round_half_even_le)
qed

lemma float_significand_lower:
  assumes "0 < a" and "- 1022 < float_exponent a"
  shows "4503599627370496 \<le> float_significand a"
proof -
  let ?e = "float_exponent a"
  from assms(2) have e: "?e = log2_floor a" by (simp add: float_exponent_def)
  have "pow2 ?e = pow2 52 * pow2 (?e - 52)" by (simp add: pow2_add[symmetric] add.commute)
  moreover have "pow2 ?e \<le> a" unfolding e using assms(1) by (rule log2_floor_bounds)
  ultimately have "pow2 52 * pow2 (?e - 52) \<le> a" by simp
  then have "pow2 52 \<le> a / pow2 (?e - 52)" using pow2_pos[of "?e - 52"]
    by (simp add: pos_le_divide_eq)
  moreover have "pow2 52 = of_int 4503599627370496" by (simp add: pow2_of_int)
  ultimately have "of_int 4503599627370496 \<le> a / pow2 (?e - 52)" by simp
  then show ?thesis unfolding float_significand_def by (rule round_half_even_ge)
qed

lemma float_significand_nonneg:
  assumes "0 < a"
  shows "0 \<le> float_significand a"
proof -
  have "(of_int 0 :: rat) \<le> a / pow2 (float_exponent a - 52)"
    using assms pow2_pos[of "float_exponent a - 52"] by simp
  then show ?thesis unfolding float_significand_def by (rule round_half_even_ge)
qed

lemma round_positive_nonneg: "0 < a \<Longrightarrow> 0 \<le> round_positive a"
  using float_significand_nonneg[of a] pow2_pos[of "float_exponent a - 52"]
  by (simp add: round_positive_def)

lemma round_positive_mono:
  assumes "0 < a" and "a \<le> b"
  shows "round_positive a \<le> round_positive b"
proof -
  from assms have b: "0 < b" by simp
  let ?ea = "float_exponent a" and ?eb = "float_exponent b"
  have le: "?ea \<le> ?eb" using assms by (rule float_exponent_mono)
  show ?thesis
  proof (cases "?ea = ?eb")
    case True
    have "a / pow2 (?eb - 52) \<le> b / pow2 (?eb - 52)"
      using assms(2) pow2_pos[of "?eb - 52"] by (simp add: divide_right_mono)
    then have "float_significand a \<le> float_significand b"
      unfolding float_significand_def True by (rule round_half_even_mono)
    then have "(of_int (float_significand a) :: rat) \<le> of_int (float_significand b)"
      by simp
    then show ?thesis
      unfolding round_positive_def True using pow2_pos[of "?eb - 52"]
      by (simp add: mult_right_mono)
  next
    case False
    with le have lt: "?ea + 1 \<le> ?eb" by simp
    have "- 1022 \<le> ?ea" by (simp add: float_exponent_def)
    with lt have nb: "- 1022 < ?eb" by simp
    have "round_positive a \<le> of_int 9007199254740992 * pow2 (?ea - 52)"
      unfolding round_positive_def
      using float_significand_upper[OF assms(1)] pow2_pos[of "?ea - 52"]
      by (simp add: mult_right_mono)
    also have "of_int 9007199254740992 = pow2 53" by (simp add: pow2_of_int)
    also have "pow2 53 * pow2 (?ea - 52) = pow2 (?ea + 1)" by (simp add: pow2_add[symmetric] add.commute)
    also have "\<dots> \<le> pow2 ?eb" using lt by (rule pow2_mono)
    also have "\<dots> = pow2 52 * pow2 (?eb - 52)" by (simp add: pow2_add[symmetric] add.commute)
    also have "pow2 52 = of_int 4503599627370496" by (simp add: pow2_of_int)
    also have "of_int 4503599627370496 * pow2 (?eb - 52) \<le> round_positive b"
      unfolding round_positive_def
      using float_significand_lower[OF b nb] pow2_pos[of "?eb - 52"]
      by (simp add: mult_right_mono)
    finally show ?thesis .
  qed
qed

lemma float_overflows_mono:
  assumes "0 < a" and "a \<le> b" and "float_overflows a"
  shows "float_overflows b"
proof -
  from assms have b: "0 < b" by simp
  have le: "float_exponent a \<le> float_exponent b" using assms(1,2) by (rule float_exponent_mono)
  show ?thesis
  proof (cases "1024 \<le> float_exponent b")
    case True
    then show ?thesis by (simp add: float_overflows_def)
  next
    case False
    with le assms(3) have ea: "float_exponent a = 1023" and sa: "float_significand a = 9007199254740992"
      by (auto simp: float_overflows_def)
    with le False have eb: "float_exponent b = 1023" by simp
    have "a / pow2 (1023 - 52) \<le> b / pow2 (1023 - 52)"
      using assms(2) pow2_pos[of "1023 - 52"] by (simp add: divide_right_mono)
    then have "float_significand a \<le> float_significand b"
      unfolding float_significand_def ea eb by (rule round_half_even_mono)
    with sa float_significand_upper[OF b] have "float_significand b = 9007199254740992"
      by simp
    with eb show ?thesis by (simp add: float_overflows_def)
  qed
qed

text \<open>Rounding is monotone: it keeps the order against the rounding of a positive value.\<close>

lemma round64_positive:
  assumes "0 < c" and "round64 c = Finite c'"
  shows "\<not> float_overflows c" and "round_positive c = c'"
  using assms by (auto simp: round64_def split: if_splits)

lemma round64_ge:
  assumes "0 < c" and "round64 c = Finite c'" and "c \<le> q"
  shows "binary64_le (Finite c') (round64 q)"
proof -
  from assms have q: "0 < q" by simp
  note c = round64_positive[OF assms(1,2)]
  show ?thesis
  proof (cases "float_overflows q")
    case True
    with q show ?thesis by (simp add: round64_def)
  next
    case False
    have "round_positive c \<le> round_positive q" using assms(1,3) by (rule round_positive_mono)
    with False q c show ?thesis by (simp add: round64_def)
  qed
qed

lemma round64_le:
  assumes "0 < c" and "round64 c = Finite c'" and "q \<le> c"
  shows "binary64_le (round64 q) (Finite c')"
proof -
  note c = round64_positive[OF assms(1,2)]
  have c': "0 \<le> c'" using round_positive_nonneg[OF assms(1)] c(2) by simp
  consider "q = 0" | "q < 0" | "0 < q" by linarith
  then show ?thesis
  proof cases
    case 1
    with c' show ?thesis by (simp add: round64_def)
  next
    case 2
    then have "0 \<le> round_positive (- q)" by (intro round_positive_nonneg) simp
    with 2 c' show ?thesis by (simp add: round64_def)
  next
    case 3
    have n: "\<not> float_overflows q"
      using float_overflows_mono[OF 3 assms(3)] c(1) by blast
    have "round_positive q \<le> round_positive c" using 3 assms(3) by (rule round_positive_mono)
    with n 3 c show ?thesis by (simp add: round64_def)
  qed
qed

lemma round64_below:
  assumes "0 < t" and "round64 t = Finite t'" and "q \<le> t" and "t' < c"
  shows "\<not> binary64_le (Finite c) (round64 q)"
proof -
  have "binary64_le (round64 q) (Finite t')" using assms(1-3) by (rule round64_le)
  with assms(4) show ?thesis by (cases "round64 q") auto
qed

lemma round64_above:
  assumes "0 < t" and "round64 t = Finite t'" and "t \<le> q" and "c < t'"
  shows "\<not> binary64_le (round64 q) (Finite c)"
proof -
  have "binary64_le (Finite t') (round64 q)" using assms(1-3) by (rule round64_ge)
  with assms(4) show ?thesis by (cases "round64 q") auto
qed

text \<open>The four band limits and the four values one \<open>2 ^ -51\<close> outside them, rounded.\<close>

lemma round64_limits:
  "round64 (9/10) = Finite (8106479329266893/9007199254740992)"
  "round64 (11/10) = Finite (2476979795053773/2251799813685248)"
  "round64 (8/10) = Finite (3602879701896397/4503599627370496)"
  "round64 (12/10) = Finite (5404319552844595/4503599627370496)"
  by code_simp+

lemma round64_outside:
  "round64 (9/10 - 1/2251799813685248) = Finite (8106479329266889/9007199254740992)"
  "round64 (11/10 + 1/2251799813685248) = Finite (1238489897526887/1125899906842624)"
  "round64 (8/10 - 1/2251799813685248) = Finite (3602879701896395/4503599627370496)"
  "round64 (12/10 + 1/2251799813685248) = Finite (5404319552844597/4503599627370496)"
  by code_simp+

text \<open>The two tests of the code on the rounded quotient \<open>q\<close>: they hold inside the bands
  and fail from \<open>2 ^ -51\<close> outside them.\<close>

lemma in_band_10:
  assumes "9/10 \<le> q" and "q \<le> 11/10"
  shows "binary64_le (round64 (9/10)) (round64 q) \<and> binary64_le (round64 q) (round64 (11/10))"
proof -
  have a: "binary64_le (Finite (8106479329266893/9007199254740992)) (round64 q)"
    by (rule round64_ge[OF _ round64_limits(1) assms(1)]) simp
  have b: "binary64_le (round64 q) (Finite (2476979795053773/2251799813685248))"
    by (rule round64_le[OF _ round64_limits(2) assms(2)]) simp
  show ?thesis unfolding round64_limits by (intro conjI a b)
qed

lemma in_band_20:
  assumes "8/10 \<le> q" and "q \<le> 12/10"
  shows "binary64_le (round64 (8/10)) (round64 q) \<and> binary64_le (round64 q) (round64 (12/10))"
proof -
  have a: "binary64_le (Finite (3602879701896397/4503599627370496)) (round64 q)"
    by (rule round64_ge[OF _ round64_limits(3) assms(1)]) simp
  have b: "binary64_le (round64 q) (Finite (5404319552844595/4503599627370496))"
    by (rule round64_le[OF _ round64_limits(4) assms(2)]) simp
  show ?thesis unfolding round64_limits by (intro conjI a b)
qed

lemma not_in_band_10:
  assumes "q \<le> 9/10 - 1/2251799813685248 \<or> 11/10 + 1/2251799813685248 \<le> q"
  shows "\<not> (binary64_le (round64 (9/10)) (round64 q)
            \<and> binary64_le (round64 q) (round64 (11/10)))"
proof -
  have a: "\<not> binary64_le (Finite (8106479329266893/9007199254740992)) (round64 q)"
    if "q \<le> 9/10 - 1/2251799813685248"
    by (rule round64_below[OF _ round64_outside(1) that]) simp_all
  have b: "\<not> binary64_le (round64 q) (Finite (2476979795053773/2251799813685248))"
    if "11/10 + 1/2251799813685248 \<le> q"
    by (rule round64_above[OF _ round64_outside(2) that]) simp_all
  show ?thesis unfolding round64_limits using assms a b by blast
qed

lemma not_in_band_20:
  assumes "q \<le> 8/10 - 1/2251799813685248 \<or> 12/10 + 1/2251799813685248 \<le> q"
  shows "\<not> (binary64_le (round64 (8/10)) (round64 q)
            \<and> binary64_le (round64 q) (round64 (12/10)))"
proof -
  have a: "\<not> binary64_le (Finite (3602879701896397/4503599627370496)) (round64 q)"
    if "q \<le> 8/10 - 1/2251799813685248"
    by (rule round64_below[OF _ round64_outside(3) that]) simp_all
  have b: "\<not> binary64_le (round64 q) (Finite (5404319552844595/4503599627370496))"
    if "12/10 + 1/2251799813685248 \<le> q"
    by (rule round64_above[OF _ round64_outside(4) that]) simp_all
  show ?thesis unfolding round64_limits using assms a b by blast
qed

text \<open>A relative error as a bound on the quotient, for a divisor of either sign.\<close>

lemma relative_error_le:
  fixes x y d :: rat
  assumes "y \<noteq> 0"
  shows "\<bar>x - y\<bar> \<le> d * \<bar>y\<bar> \<longleftrightarrow> 1 - d \<le> x / y \<and> x / y \<le> 1 + d"
proof (cases "0 < y")
  case True
  then show ?thesis by (auto simp: field_simps abs_le_iff)
next
  case False
  with assms have "y < 0" by simp
  then show ?thesis by (auto simp: field_simps abs_le_iff)
qed

lemma relative_error_ge:
  fixes x y d :: rat
  assumes "y \<noteq> 0"
  shows "d * \<bar>y\<bar> \<le> \<bar>x - y\<bar> \<longleftrightarrow> x / y \<le> 1 - d \<or> 1 + d \<le> x / y"
proof (cases "0 < y")
  case True
  then have "x / y \<le> 1 - d \<longleftrightarrow> x \<le> (1 - d) * y" "1 + d \<le> x / y \<longleftrightarrow> (1 + d) * y \<le> x"
    by (simp_all add: pos_divide_le_eq pos_le_divide_eq)
  with True show ?thesis by (auto simp: abs_if algebra_simps)
next
  case False
  with assms have y: "y < 0" by simp
  then have "x / y \<le> 1 - d \<longleftrightarrow> (1 - d) * y \<le> x" "1 + d \<le> x / y \<longleftrightarrow> x \<le> (1 + d) * y"
    by (simp_all add: neg_divide_le_eq neg_le_divide_eq)
  with y show ?thesis by (auto simp: abs_if algebra_simps)
qed

section \<open>The closeness bands on Python's floats\<close>

lemma ratio_score_binary64:
  assumes "binary64_of_str g = Some (Finite x)" and "binary64_of_str t = Some (Finite y)"
    and "y \<noteq> 0"
  shows "ratio_score binary64_ops g t 0 =
     Inr (if binary64_le (round64 (9/10)) (round64 (x / y))
             \<and> binary64_le (round64 (x / y)) (round64 (11/10)) then 1/2
          else if binary64_le (round64 (8/10)) (round64 (x / y))
             \<and> binary64_le (round64 (x / y)) (round64 (12/10)) then 1/4
          else - 1)"
proof -
  have "float_of_str binary64_ops g = Some (Finite x)"
    "float_of_str binary64_ops t = Some (Finite y)"
    "\<not> float_is_zero binary64_ops (Finite y)"
    using assms by (simp_all add: binary64_ops_def)
  from ratio_score_parsed[OF this] show ?thesis by (simp add: binary64_ops_def)
qed

text \<open>
  Claim C2, as stated, fails on Python's floats: the texts 8.1 and 9 denote numbers exactly
  10 percent apart, and 2.4 and 3 numbers exactly 20 percent apart, but 8.1 and 2.4 convert
  to floats just below their values, the quotients round below 0.9 and 0.8, and the scores
  are 0.25 and -1 instead of 0.5 and 0.25.
\<close>

theorem check_answer_band_edges_round:
  "check_answer binary64_ops ([] :: string list)
     [''<start_working_out>a<end_working_out><SOLUTION>8.1</SOLUTION>'',
      ''<start_working_out>a<end_working_out><SOLUTION>2.4</SOLUTION>'']
     [Some ''9'', Some ''3''] Map.empty = Inr [1/4, - 1]
   \<and> float_text_of ''8.1'' = Some (Number (81/10)) \<and> float_text_of ''9'' = Some (Number 9)
   \<and> \<bar>81/10 - 9\<bar> \<le> (1/10) * \<bar>9 :: rat\<bar>
   \<and> float_text_of ''2.4'' = Some (Number (24/10)) \<and> float_text_of ''3'' = Some (Number 3)
   \<and> \<bar>24/10 - 3\<bar> \<le> (2/10) * \<bar>3 :: rat\<bar>"
  by code_simp

text \<open>
  Claim C2, amended. In \<open>check_answer\<close>, when the extracted answer differs from the ground
  truth as a string and after stripping, and both convert to finite floats \<open>x\<close> and \<open>y\<close>
  with \<open>y\<close> not zero, the distance is that of the converted floats: \<open>x\<close> within 10
  percent of \<open>y\<close> scores 0.5; \<open>x\<close> within 20 percent of \<open>y\<close> but more than 10 percent
  away, by a margin of \<open>2 ^ -51\<close> of \<open>y\<close>, scores 0.25; \<open>x\<close> more than 20 percent away, by
  the same margin, scores -1. Inside the margins the rounding of the quotient decides.
\<close>

theorem check_answer_relative_bands:
  assumes "check_answer binary64_ops prompts completions answer kargs = Inr scores"
    and "i < length completions" and "i < length answer"
    and "match_format_search (completions ! i) = Some guess"
    and "answer ! i = Some true_answer"
    and "guess \<noteq> true_answer" and "py_strip guess \<noteq> py_strip true_answer"
    and "binary64_of_str guess = Some (Finite x)"
    and "binary64_of_str true_answer = Some (Finite y)"
    and "y \<noteq> 0"
  shows "(\<bar>x - y\<bar> \<le> (1/10) * \<bar>y\<bar> \<longrightarrow> scores ! i = 1/2)
       \<and> ((1/10 + 1/2251799813685248) * \<bar>y\<bar> \<le> \<bar>x - y\<bar> \<and> \<bar>x - y\<bar> \<le> (2/10) * \<bar>y\<bar>
            \<longrightarrow> scores ! i = 1/4)
       \<and> ((2/10 + 1/2251799813685248) * \<bar>y\<bar> \<le> \<bar>x - y\<bar> \<longrightarrow> scores ! i = - 1)"
proof -
  let ?q = "x / y"
  let ?in10 = "binary64_le (round64 (9/10)) (round64 ?q)
                 \<and> binary64_le (round64 ?q) (round64 (11/10))"
  let ?in20 = "binary64_le (round64 (8/10)) (round64 ?q)
                 \<and> binary64_le (round64 ?q) (round64 (12/10))"
  from check_answer_nth(2)[OF assms(1-3)] assms(4,5)
  have "check_answer_score binary64_ops (Some guess) (Some true_answer) = Inr (scores ! i)"
    by simp
  then have s: "scores ! i = (if ?in10 then 1/2 else if ?in20 then 1/4 else - 1)"
    using assms(6,7)
    by (auto simp: check_answer_score_Some ratio_score_binary64[OF assms(8-10)]
        split: if_splits)
  have a: "scores ! i = 1/2" if "\<bar>x - y\<bar> \<le> (1/10) * \<bar>y\<bar>"
  proof -
    from that have "1 - 1/10 \<le> ?q \<and> ?q \<le> 1 + 1/10"
      by (simp only: relative_error_le[OF assms(10)])
    then have "9/10 \<le> ?q" "?q \<le> 11/10" by simp_all
    then have ?in10 by (rule in_band_10)
    with s show ?thesis by (simp only: if_True if_False simp_thms)
  qed
  have b: "scores ! i = 1/4"
    if "(1/10 + 1/2251799813685248) * \<bar>y\<bar> \<le> \<bar>x - y\<bar> \<and> \<bar>x - y\<bar> \<le> (2/10) * \<bar>y\<bar>"
  proof -
    from that have "?q \<le> 1 - (1/10 + 1/2251799813685248) \<or> 1 + (1/10 + 1/2251799813685248) \<le> ?q"
      by (simp only: relative_error_ge[OF assms(10)])
    then have "?q \<le> 9/10 - 1/2251799813685248 \<or> 11/10 + 1/2251799813685248 \<le> ?q"
      by simp
    then have n: "\<not> ?in10" by (rule not_in_band_10)
    from that have "1 - 2/10 \<le> ?q \<and> ?q \<le> 1 + 2/10"
      by (simp only: relative_error_le[OF assms(10)])
    then have "8/10 \<le> ?q" "?q \<le> 12/10" by simp_all
    then have ?in20 by (rule in_band_20)
    with n s show ?thesis by (simp only: if_True if_False simp_thms)
  qed
  have c: "scores ! i = - 1" if "(2/10 + 1/2251799813685248) * \<bar>y\<bar> \<le> \<bar>x - y\<bar>"
  proof -
    from that have "?q \<le> 1 - (2/10 + 1/2251799813685248) \<or> 1 + (2/10 + 1/2251799813685248) \<le> ?q"
      by (simp only: relative_error_ge[OF assms(10)])
    then have o: "?q \<le> 8/10 - 1/2251799813685248 \<or> 12/10 + 1/2251799813685248 \<le> ?q"
      by simp
    then have n20: "\<not> ?in20" by (rule not_in_band_20)
    from o have "?q \<le> 9/10 - 1/2251799813685248 \<or> 11/10 + 1/2251799813685248 \<le> ?q"
      by linarith
    then have n10: "\<not> ?in10" by (rule not_in_band_10)
    from n10 n20 s show ?thesis by (simp only: if_True if_False simp_thms)
  qed
  from a b c show ?thesis by blast
qed

theorem check_answer_relative_bands_witness:
  "check_answer binary64_ops ([] :: string list)
     [''<start_working_out>a<end_working_out><SOLUTION>10.5</SOLUTION>'',
      ''<start_working_out>a<end_working_out><SOLUTION>12</SOLUTION>'',
      ''<start_working_out>a<end_working_out><SOLUTION>13</SOLUTION>'']
     [Some ''10'', Some ''10'', Some ''10''] Map.empty = Inr [1/2, 1/4, - 1]
   \<and> binary64_of_str ''10.5'' = Some (Finite (21/2))
   \<and> binary64_of_str ''10'' = Some (Finite 10)
   \<and> \<bar>21/2 - 10\<bar> \<le> (1/10) * \<bar>10 :: rat\<bar>
   \<and> [1/2, 1/4, - 1 :: rat] ! 0 = 1/2"
proof -
  let ?cs = "[''<start_working_out>a<end_working_out><SOLUTION>10.5</SOLUTION>'',
      ''<start_working_out>a<end_working_out><SOLUTION>12</SOLUTION>'',
      ''<start_working_out>a<end_working_out><SOLUTION>13</SOLUTION>'']"
  have r: "check_answer binary64_ops ([] :: string list) ?cs
             [Some ''10'', Some ''10'', Some ''10''] Map.empty = Inr [1/2, 1/4, - 1]"
    by code_simp
  have g: "match_format_search (?cs ! 0) = Some ''10.5''"
    by code_simp
  have s: "py_strip ''10.5'' \<noteq> py_strip ''10''"
    by code_simp
  have x: "binary64_of_str ''10.5'' = Some (Finite (21/2))"
    by code_simp
  have y: "binary64_of_str ''10'' = Some (Finite 10)"
    by code_simp
  have d: "\<bar>21/2 - 10\<bar> \<le> (1/10) * \<bar>10 :: rat\<bar>"
    by simp
  from check_answer_relative_bands[OF r, of 0 "''10.5''" "''10''" "21/2" 10] g s x y d
  have "[1/2, 1/4, - 1 :: rat] ! 0 = 1/2" by simp
  with r x y d show ?thesis by simp
qed

end
